theory Spec2Isabelle
  imports Complex_Main
begin

section \<open>Data model\<close>

text \<open>
  JSON payloads (step parameters, step results). The orchestrator never looks inside a
  payload; numbers are kept as integers.
\<close>

datatype json =
    JNull
  | JBool bool
  | JNum int
  | JStr string
  | JArr "json list"
  | JObj "(string \<times> json) list"

text \<open>The \<open>agentType\<close> union of \<open>WorkflowStep\<close> (geminiService.ts, line 8).\<close>

datatype agent_type =
  Orchestrator | Data | Communication | Integration | Analysis | Validation | Recovery

text \<open>\<open>WorkflowStep\<close> (geminiService.ts, lines 5-11).\<close>

record step_spec =
  name :: string
  description :: string
  agentType :: agent_type
  action :: string
  params :: json

text \<open>
  The value \<open>executeAgentStep\<close> resolves to:
  \<open>{ success: boolean; result?: any; error?: string }\<close>. An optional field that is
  absent is \<open>None\<close>.
\<close>

record step_result =
  success :: bool
  result :: "json option"
  error :: "string option"

text \<open>The status column of both tables: 'pending', 'running', 'completed', 'failed'.\<close>

datatype status = Pending | Running | Completed | Failed

text \<open>
  The context object of one execution, \<open>const context = {}\<close> at line 87 of server.ts. It
  is a plain JavaScript object, so it has its own properties and a prototype:
  \<^item> \<open>entries\<close>: the own properties, step name to that step's \<open>result.result\<close>, which
    may itself be undefined (\<open>Some None\<close>: the key is there, its value is undefined).
    These are what \<open>JSON.stringify(context)\<close> writes into the prompt of line 74 of
    geminiService.ts (leaving out the undefined ones);
  \<^item> \<open>prototype\<close>: \<open>Object.prototype\<close> at first; an assignment to the key \<open>__proto__\<close>
    can replace it by \<open>null\<close> or by a parsed object or array.
\<close>

datatype js_prototype = ObjectPrototype | NullPrototype | ValuePrototype json

record exec_context =
  entries :: "string \<rightharpoonup> json option"
  prototype :: js_prototype

definition empty_context :: exec_context where
  "empty_context = \<lparr>entries = Map.empty, prototype = ObjectPrototype\<rparr>"

text \<open>
  \<open>Object.assign(context, { [step.name]: result.result })\<close> (line 120 of server.ts). The
  source object has the one own property \<open>key\<close> (a computed key is an own property, also
  for \<open>__proto__\<close>), and \<open>Object.assign\<close> performs \<open>context[key] = v\<close>. That assignment
  writes an own property of \<open>context\<close>, except where the lookup of \<open>key\<close> along the
  prototype chain ends at an accessor. The only accessor there is \<open>__proto__\<close> of
  \<open>Object.prototype\<close>; it is reached when \<open>context\<close> has no own property \<open>__proto__\<close>, its
  prototype is not \<open>null\<close>, and the object that is its prototype has no own property
  \<open>__proto__\<close> (\<open>JSON.parse\<close> creates one for that key). The setter then replaces the
  prototype of \<open>context\<close> when \<open>v\<close> is an object, an array or \<open>null\<close>, does nothing for
  any other value, and in neither case adds an own property.
\<close>

fun has_proto_key :: "json \<Rightarrow> bool" where
  "has_proto_key (JObj kvs) = (''__proto__'' \<in> set (map fst kvs))"
| "has_proto_key v = False"

fun proto_setter :: "exec_context \<Rightarrow> json option \<Rightarrow> exec_context" where
  "proto_setter ctx (Some (JObj kvs)) = ctx\<lparr>prototype := ValuePrototype (JObj kvs)\<rparr>"
| "proto_setter ctx (Some (JArr xs)) = ctx\<lparr>prototype := ValuePrototype (JArr xs)\<rparr>"
| "proto_setter ctx (Some JNull) = ctx\<lparr>prototype := NullPrototype\<rparr>"
| "proto_setter ctx v = ctx"

definition Object_assign :: "exec_context \<Rightarrow> string \<Rightarrow> json option \<Rightarrow> exec_context" where
  "Object_assign ctx key v =
     (if key = ''__proto__'' \<and> entries ctx ''__proto__'' = None
      then case prototype ctx of
             ObjectPrototype \<Rightarrow> proto_setter ctx v
           | NullPrototype \<Rightarrow> ctx\<lparr>entries := (entries ctx)(key \<mapsto> v)\<rparr>
           | ValuePrototype p \<Rightarrow>
               if has_proto_key p then ctx\<lparr>entries := (entries ctx)(key \<mapsto> v)\<rparr>
               else proto_setter ctx v
      else ctx\<lparr>entries := (entries ctx)(key \<mapsto> v)\<rparr>)"

section \<open>The step runner: \<open>executeAgentStep\<close>\<close>

text \<open>
  A value that the \<open>catch\<close> of line 96 of geminiService.ts can receive. Its parameter is
  typed \<open>any\<close>, and line 98 reads \<open>error.message\<close> from it:
  \<^item> \<open>ThrownNullish Null\<close>, \<open>ThrownNullish Undefined\<close>: the value is \<open>null\<close> or \<open>undefined\<close>
    (as after \<open>Promise.reject()\<close> or \<open>throw null\<close>); reading a property of it raises a
    TypeError;
  \<^item> \<open>ThrownError m\<close>: any other value, an Error above all; \<open>m\<close> is its message, the empty
    string when it has none.
\<close>

datatype nullish = Null | Undefined

datatype thrown = ThrownNullish nullish | ThrownError string

text \<open>
  What the external executor does at one call, as far as lines 72-95 of geminiService.ts
  can tell the difference:
  \<^item> \<open>Rejects t\<close>: the awaited \<open>generateContent\<close> call rejects with the value \<open>t\<close>;
  \<^item> \<open>NoText\<close>: the call returns and \<open>response.text\<close> is undefined or the empty string;
  \<^item> \<open>Unparsable m\<close>: \<open>response.text\<close> is a non-empty string on which \<open>JSON.parse\<close>
    throws a SyntaxError with message \<open>m\<close>;
  \<^item> \<open>Parses v\<close>: \<open>JSON.parse(response.text)\<close> returns \<open>v\<close>. The reply is requested under
    the response schema of lines 81-89 (an object with a boolean \<open>success\<close>, the only
    required field, an optional \<open>result\<close> and an optional string \<open>error\<close>), so \<open>v\<close> is
    a \<open>step_result\<close>.
\<close>

datatype agent_reply =
    Rejects thrown
  | NoText
  | Unparsable string
  | Parses step_result

text \<open>
  The external executor: asked with the step and the context (the prompt of line 74 is
  built from both), it replies.
\<close>

type_synonym executor = "step_spec \<Rightarrow> exec_context \<Rightarrow> agent_reply"

text \<open>
  The body of the \<open>try\<close> block (lines 72-95): \<open>Inl t\<close> is the value \<open>t\<close> thrown inside it,
  \<open>Inr v\<close> a \<open>return v\<close>.
\<close>

definition executeAgentStep_try ::
  "executor \<Rightarrow> step_spec \<Rightarrow> exec_context \<Rightarrow> thrown + step_result" where
  "executeAgentStep_try ai step ctx =
     (case ai step ctx of
        Rejects t \<Rightarrow> Inl t
      | NoText \<Rightarrow> Inr \<lparr>success = False, result = None, error = Some ''Empty response from agent''\<rparr>
      | Unparsable m \<Rightarrow> Inl (ThrownError m)
      | Parses v \<Rightarrow> Inr v)"

text \<open>
  The message of the TypeError that Node raises when line 98 reads \<open>error.message\<close> from
  \<open>null\<close> or \<open>undefined\<close>.
\<close>

definition type_error_message :: "nullish \<Rightarrow> string" where
  "type_error_message n =
     ''Cannot read properties of '' @ (case n of Null \<Rightarrow> ''null'' | Undefined \<Rightarrow> ''undefined'') @
     '' (reading '' @ [CHR 0x27] @ ''message'' @ [CHR 0x27] @ '')''"

text \<open>
  \<open>executeAgentStep\<close> (lines 70-100): the \<open>try\<close> block under its \<open>catch\<close>, which returns
  \<open>{ success: false, error: error.message || "Unknown error during agent execution" }\<close>.
  \<open>Inr v\<close> is a returned value. \<open>Inl m\<close> is a fault that leaves the function, an Error of
  message \<open>m\<close>: the catch block has no handler of its own, so the TypeError of line 98
  is thrown to the caller.
\<close>

definition executeAgentStep ::
  "executor \<Rightarrow> step_spec \<Rightarrow> exec_context \<Rightarrow> string + step_result" where
  "executeAgentStep ai step ctx =
     (case executeAgentStep_try ai step ctx of
        Inr v \<Rightarrow> Inr v
      | Inl (ThrownNullish n) \<Rightarrow> Inl (type_error_message n)
      | Inl (ThrownError m) \<Rightarrow>
          Inr \<lparr>success = False, result = None,
               error = Some (if m = [] then ''Unknown error during agent execution'' else m)\<rparr>)"

section \<open>The store\<close>

text \<open>
  The tables of db.ts that server.ts reads and writes, a row per record and a table as
  the list of its rows in insertion order. \<open>steps_json\<close> holds the plan's steps as
  \<open>JSON.stringify\<close> wrote them at creation; the column is modelled by the list that
  \<open>JSON.parse\<close> gives back. The columns \<open>user_id\<close> and \<open>updated_at\<close> of \<open>workflows\<close>,
  which no statement of server.ts names, are left out. Timestamps are numbers read from
  the store's clock.
\<close>

record workflow_row =
  w_id :: string
  w_name :: string
  w_description :: string
  w_original_prompt :: string
  w_steps_json :: "step_spec list"
  w_created_at :: nat

record execution_row =
  e_id :: string
  e_workflow_id :: string
  e_status :: status
  e_started_at :: nat
  e_completed_at :: "nat option"
  e_error_message :: "string option"

record step_row =
  s_id :: string
  s_execution_id :: string
  s_step_index :: nat
  s_name :: string
  s_agent_type :: agent_type
  s_status :: status
  s_result_json :: "json option"
  s_error_message :: "string option"
  s_started_at :: "nat option"
  s_completed_at :: "nat option"

record database =
  workflows :: "workflow_row list"
  workflow_executions :: "execution_row list"
  execution_steps :: "step_row list"
  current_timestamp :: nat

section \<open>Effects of the orchestrator\<close>

text \<open>The two kinds of event that server.ts broadcasts (lines 88, 99, 111, 116, 126, 132).\<close>

datatype message =
    ExecutionUpdate string status "string option"
  | StepUpdate string string status nat "json option" "string option"

text \<open>
  The background task of an execution never reads the store: it writes rows, broadcasts
  and calls the runner. Its run is the list of these effects in the order the code
  performs them, and \<open>perform\<close> gives each write its meaning on the store. The arguments
  of a write stand in the order of the statement's parameters:
  \<^item> \<open>InsertExecution id workflow_id status\<close> (line 81);
  \<^item> \<open>InsertStep id execution_id step_index name agent_type status\<close> (lines 94-97);
  \<^item> \<open>UpdateStep status result_json error_message id\<close> (lines 105-109);
  \<^item> \<open>FailStep error_message id\<close> (lines 122-123);
  \<^item> \<open>FailExecution error_message id\<close> (lines 114-115 and 124-125);
  \<^item> \<open>CompleteExecution id\<close> (line 131);
  \<^item> \<open>Broadcast m\<close>: a call of \<open>broadcast\<close>;
  \<^item> \<open>CallRunner i step ctx\<close>: the call \<open>executeAgentStep(step, context)\<close> of line 102
    in iteration \<open>i\<close>.
  Writes are taken to succeed: a fault of the store itself is outside the model.
\<close>

datatype effect =
    InsertExecution string string status
  | InsertStep string string nat string agent_type status
  | UpdateStep status "json option" "string option" string
  | FailStep string string
  | FailExecution "string option" string
  | CompleteExecution string
  | Broadcast message
  | CallRunner nat step_spec exec_context

fun perform :: "database \<Rightarrow> effect \<Rightarrow> database" where
  "perform db (InsertExecution eid wid st) =
     db\<lparr>workflow_executions := workflow_executions db @
        [\<lparr>e_id = eid, e_workflow_id = wid, e_status = st,
          e_started_at = current_timestamp db, e_completed_at = None,
          e_error_message = None\<rparr>]\<rparr>"
| "perform db (InsertStep sid eid i nm ag st) =
     db\<lparr>execution_steps := execution_steps db @
        [\<lparr>s_id = sid, s_execution_id = eid, s_step_index = i, s_name = nm,
          s_agent_type = ag, s_status = st, s_result_json = None,
          s_error_message = None, s_started_at = Some (current_timestamp db),
          s_completed_at = None\<rparr>]\<rparr>"
| "perform db (UpdateStep st res err sid) =
     db\<lparr>execution_steps :=
        map (\<lambda>r. if s_id r = sid
                 then r\<lparr>s_status := st, s_result_json := res, s_error_message := err,
                        s_completed_at := Some (current_timestamp db)\<rparr>
                 else r) (execution_steps db)\<rparr>"
| "perform db (FailStep msg sid) =
     db\<lparr>execution_steps :=
        map (\<lambda>r. if s_id r = sid
                 then r\<lparr>s_status := Failed, s_error_message := Some msg,
                        s_completed_at := Some (current_timestamp db)\<rparr>
                 else r) (execution_steps db)\<rparr>"
| "perform db (FailExecution err eid) =
     db\<lparr>workflow_executions :=
        map (\<lambda>e. if e_id e = eid
                 then e\<lparr>e_status := Failed, e_error_message := err,
                        e_completed_at := Some (current_timestamp db)\<rparr>
                 else e) (workflow_executions db)\<rparr>"
| "perform db (CompleteExecution eid) =
     db\<lparr>workflow_executions :=
        map (\<lambda>e. if e_id e = eid
                 then e\<lparr>e_status := Completed,
                        e_completed_at := Some (current_timestamp db)\<rparr>
                 else e) (workflow_executions db)\<rparr>"
| "perform db (Broadcast m) = db"
| "perform db (CallRunner i step ctx) = db"

text \<open>The store after a list of effects, and every store the list passes through.\<close>

definition perform_all :: "database \<Rightarrow> effect list \<Rightarrow> database" where
  "perform_all db effs = foldl perform db effs"

fun stores :: "database \<Rightarrow> effect list \<Rightarrow> database list" where
  "stores db [] = [db]"
| "stores db (e # es) = db # stores (perform db e) es"

section \<open>The orchestrator: \<open>POST /api/executions/execute\<close>\<close>

text \<open>
  The runner as the loop sees it at line 102: called in iteration \<open>i\<close> with the step and
  the context, it resolves to a value (\<open>Inr\<close>) or throws an Error with a message (\<open>Inl\<close>),
  which the \<open>catch\<close> of line 121 receives. The iteration number is an argument so that
  the runner may answer the same step and context differently at different calls.
  The loop is defined for every such runner, so that both of its failure paths can be
  followed; \<open>agent_runner\<close> below is the one that server.ts imports, and what it throws
  is the TypeError of its own catch block, an Error with a message. A call that never
  settles leaves the run at a prefix of the list of effects.
\<close>

type_synonym runner = "nat \<Rightarrow> step_spec \<Rightarrow> exec_context \<Rightarrow> string + step_result"

text \<open>
  The \<open>for\<close> loop of lines 90-129 followed by lines 131-132, from iteration \<open>i\<close> on:
  the last argument is the steps \<open>steps[i], steps[i+1], ...\<close> still to run, \<open>ctx\<close> is the
  context object, \<open>executionId\<close> the id of the execution and \<open>stepId i\<close> the value of
  \<open>uuidv4()\<close> in iteration \<open>i\<close>. Both \<open>return\<close> statements (lines 117 and 127) end the
  list of effects.
\<close>

fun run_steps ::
  "runner \<Rightarrow> string \<Rightarrow> (nat \<Rightarrow> string) \<Rightarrow> nat \<Rightarrow> exec_context \<Rightarrow> step_spec list
     \<Rightarrow> effect list" where
  "run_steps run executionId stepId i ctx [] =
     [CompleteExecution executionId,
      Broadcast (ExecutionUpdate executionId Completed None)]"
| "run_steps run executionId stepId i ctx (step # rest) =
     [InsertStep (stepId i) executionId i (name step) (agentType step) Running,
      Broadcast (StepUpdate executionId (stepId i) Running i None None),
      CallRunner i step ctx] @
     (case run i step ctx of
        Inr res \<Rightarrow>
          [UpdateStep (if success res then Completed else Failed) (result res) (error res) (stepId i),
           Broadcast (StepUpdate executionId (stepId i)
              (if success res then Completed else Failed) i (result res) (error res))] @
          (if \<not> success res
           then [FailExecution (error res) executionId,
                 Broadcast (ExecutionUpdate executionId Failed (error res))]
           else run_steps run executionId stepId (i + 1) (Object_assign ctx (name step) (result res)) rest)
      | Inl msg \<Rightarrow>
          [FailStep msg (stepId i),
           FailExecution (Some msg) executionId,
           Broadcast (ExecutionUpdate executionId Failed (Some msg))])"

text \<open>The background task of lines 86-133, started with an empty context.\<close>

definition background ::
  "runner \<Rightarrow> string \<Rightarrow> (nat \<Rightarrow> string) \<Rightarrow> step_spec list \<Rightarrow> effect list" where
  "background run executionId stepId steps =
     Broadcast (ExecutionUpdate executionId Running None) #
     run_steps run executionId stepId 0 empty_context steps"

text \<open>The answer of the handler: the HTTP status and the JSON body.\<close>

datatype start_body = ErrorBody string | ExecutionIdBody string

datatype 'a response = Response nat 'a

text \<open>\<open>SELECT * FROM workflows WHERE id = ?\<close> with \<open>.get\<close> (line 77).\<close>

definition getWorkflow :: "database \<Rightarrow> string \<Rightarrow> workflow_row option" where
  "getWorkflow db workflowId = find (\<lambda>w. w_id w = workflowId) (workflows db)"

text \<open>
  The handler of lines 75-136: its response, and the effects of the request together with
  those of the background task it starts. \<open>executionId\<close> is the value of \<open>uuidv4()\<close> at
  line 80.
\<close>

definition startExecution ::
  "runner \<Rightarrow> string \<Rightarrow> (nat \<Rightarrow> string) \<Rightarrow> database \<Rightarrow> string
     \<Rightarrow> start_body response \<times> effect list" where
  "startExecution run executionId stepId db workflowId =
     (case getWorkflow db workflowId of
        None \<Rightarrow> (Response 404 (ErrorBody ''Workflow not found''), [])
      | Some workflow \<Rightarrow>
          (Response 200 (ExecutionIdBody executionId),
           InsertExecution executionId workflowId Running #
           background run executionId stepId (w_steps_json workflow)))"

text \<open>
  The runner that server.ts imports: \<open>executeAgentStep\<close> over the external executor,
  whose behaviour at the call of iteration \<open>i\<close> is \<open>ai i\<close>.
\<close>

definition agent_runner :: "(nat \<Rightarrow> executor) \<Rightarrow> runner" where
  "agent_runner ai i step ctx = executeAgentStep (ai i) step ctx"

section \<open>Reading the store\<close>

text \<open>
  \<open>GET /api/executions/:id\<close> (lines 69-73): the body \<open>{ ...execution, steps }\<close> has the
  columns of the execution row when \<open>.get\<close> found one, none when it returned undefined,
  and the field \<open>steps\<close> (\<open>detail_execution\<close> and \<open>detail_steps\<close> below). The handler
  always answers through \<open>res.json\<close>, status 200.
\<close>

record execution_detail =
  detail_execution :: "execution_row option"
  detail_steps :: "step_row list"

definition getExecution :: "database \<Rightarrow> string \<Rightarrow> execution_detail response" where
  "getExecution db ident =
     Response 200
       \<lparr>detail_execution = find (\<lambda>e. e_id e = ident) (workflow_executions db),
        detail_steps = sort_key s_step_index
                  (filter (\<lambda>r. s_execution_id r = ident) (execution_steps db))\<rparr>"

text \<open>
  \<open>GET /api/analytics/overview\<close> (lines 138-150). The rate is computed by SQLite as
  \<open>COUNT(CASE WHEN status = 'completed' THEN 1 END) * 100.0 / COUNT(*)\<close>: a division by
  zero gives NULL there, which \<open>|| 0\<close> turns into 0, as it does a rate of 0.
  The quotient is taken exactly, as a rational; the double that SQLite computes rounds
  to the same integer under \<open>Math.round\<close> for every table of fewer than \<open>2 ^ 46\<close> rows.
  \<open>Math.round\<close> rounds to the nearest integer, a half upwards.
\<close>

definition sql_divide :: "rat \<Rightarrow> rat \<Rightarrow> rat option" where
  "sql_divide a b = (if b = 0 then None else Some (a / b))"

definition Math_round :: "rat \<Rightarrow> int" where
  "Math_round x = \<lfloor>x + 1 / 2\<rfloor>"

definition count_status :: "status \<Rightarrow> execution_row list \<Rightarrow> nat" where
  "count_status st rows = length (filter (\<lambda>e. e_status e = st) rows)"

text \<open>
  \<open>SELECT status, COUNT(*) FROM workflow_executions GROUP BY status\<close>: one row for each
  status that occurs. SQL leaves the order of the groups open; they are listed here in
  the order of the status texts.
\<close>

definition group_by_status :: "execution_row list \<Rightarrow> (status \<times> nat) list" where
  "group_by_status rows =
     map (\<lambda>st. (st, count_status st rows))
       (filter (\<lambda>st. 0 < count_status st rows) [Completed, Failed, Pending, Running])"

record overview =
  totalWorkflows :: nat
  totalExecutions :: nat
  successRate :: int
  statusBreakdown :: "(status \<times> nat) list"

definition analytics :: "database \<Rightarrow> overview" where
  "analytics db =
     (let rate = sql_divide (of_nat (count_status Completed (workflow_executions db)) * 100)
                   (of_nat (length (workflow_executions db)));
          successRate = (case rate of None \<Rightarrow> 0 | Some r \<Rightarrow> if r = 0 then 0 else r)
      in \<lparr>totalWorkflows = length (workflows db),
          totalExecutions = length (workflow_executions db),
          successRate = Math_round successRate,
          statusBreakdown = group_by_status (workflow_executions db)\<rparr>)"

section \<open>Notions used in the statements\<close>

text \<open>
  A call of the runner fails when it throws (the \<open>catch\<close> of line 121) or returns a value
  whose \<open>success\<close> is false (line 113). The message is \<open>error.message\<close> in the first case
  and \<open>result.error\<close>, which may be absent, in the second.
\<close>

fun failed :: "string + step_result \<Rightarrow> bool" where
  "failed (Inl msg) = True"
| "failed (Inr res) = (\<not> success res)"

fun failure_message :: "string + step_result \<Rightarrow> string option" where
  "failure_message (Inl msg) = Some msg"
| "failure_message (Inr res) = error res"

text \<open>The row and the status that an update of \<open>execution_steps\<close> writes.\<close>

fun step_update :: "effect \<Rightarrow> (string \<times> status) option" where
  "step_update (UpdateStep st res err sid) = Some (sid, st)"
| "step_update (FailStep msg sid) = Some (sid, Failed)"
| "step_update e = None"

text \<open>Whether an effect is an update of \<open>workflow_executions\<close>.\<close>

fun execution_update :: "effect \<Rightarrow> bool" where
  "execution_update (FailExecution err eid) = True"
| "execution_update (CompleteExecution eid) = True"
| "execution_update e = False"

text \<open>The step rows of one execution, in the order of their creation.\<close>

definition execution_steps_of :: "string \<Rightarrow> database \<Rightarrow> step_row list" where
  "execution_steps_of eid db = filter (\<lambda>r. s_execution_id r = eid) (execution_steps db)"

text \<open>
  \<open>FOREIGN KEY(execution_id) REFERENCES workflow_executions(id)\<close> of db.ts: every step
  row belongs to a stored execution.
\<close>

definition references_ok :: "database \<Rightarrow> bool" where
  "references_ok db =
     (\<forall>r \<in> set (execution_steps db). s_execution_id r \<in> e_id ` set (workflow_executions db))"

text \<open>The terminal states of the status enumeration.\<close>

definition terminal :: "status \<Rightarrow> bool" where
  "terminal st = (st = Completed \<or> st = Failed)"

section \<open>Scenarios\<close>

text \<open>
  The plan \<open>[A(data), B(communication)]\<close>, a store that holds it as workflow \<open>w1\<close>, and
  three runners: one under which \<open>A\<close> yields \<open>{rows: 3}\<close> and \<open>B\<close> yields \<open>{sent: true}\<close>, one
  that returns the failure \<open>timeout\<close>, and one that throws. The ids of the step rows are
  \<open>s\<close>, \<open>s+\<close>, \<open>s++\<close> and so on, all different.
\<close>

definition stepA :: step_spec where
  "stepA = \<lparr>name = ''A'', description = ''load the rows'', agentType = Data,
            action = ''query'', params = JObj []\<rparr>"

definition stepB :: step_spec where
  "stepB = \<lparr>name = ''B'', description = ''send the report'', agentType = Communication,
            action = ''send'', params = JObj []\<rparr>"

definition store_AB :: database where
  "store_AB =
     \<lparr>workflows = [\<lparr>w_id = ''w1'', w_name = ''AB'', w_description = ''A then B'',
                     w_original_prompt = ''load the rows and send the report'',
                     w_steps_json = [stepA, stepB], w_created_at = 1\<rparr>],
      workflow_executions = [], execution_steps = [], current_timestamp = 2\<rparr>"

definition step_ids :: "nat \<Rightarrow> string" where
  "step_ids i = ''s'' @ replicate i CHR ''+''"

definition runner_success :: runner where
  "runner_success i step ctx =
     Inr \<lparr>success = True,
          result = Some (if i = 0 then JObj [(''rows'', JNum 3)] else JObj [(''sent'', JBool True)]),
          error = None\<rparr>"

definition runner_timeout :: runner where
  "runner_timeout i step ctx = Inr \<lparr>success = False, result = None, error = Some ''timeout''\<rparr>"

definition runner_throws :: runner where
  "runner_throws i step ctx = Inl ''socket closed''"

text \<open>A plan whose first step is named \<open>__proto__\<close>.\<close>

definition stepP :: step_spec where
  "stepP = \<lparr>name = ''__proto__'', description = ''load the rows'', agentType = Data,
            action = ''query'', params = JObj []\<rparr>"

definition plan_PB :: "step_spec list" where
  "plan_PB = [stepP, stepB]"

text \<open>An executor whose every call rejects with \<open>undefined\<close>.\<close>

definition rejecting_undefined :: "nat \<Rightarrow> executor" where
  "rejecting_undefined i step ctx = Rejects (ThrownNullish Undefined)"

text \<open>An executor that gives the same reply to every call.\<close>

definition executor_replying :: "agent_reply \<Rightarrow> executor" where
  "executor_replying reply step ctx = reply"

text \<open>
  A store with two completed executions of \<open>w1\<close> and a failed one, and the two step rows
  of the first; and the same store with the third execution still running.
\<close>

definition store_three :: database where
  "store_three =
     store_AB\<lparr>workflow_executions :=
        [\<lparr>e_id = ''e1'', e_workflow_id = ''w1'', e_status = Completed, e_started_at = 2,
          e_completed_at = Some 3, e_error_message = None\<rparr>,
         \<lparr>e_id = ''e2'', e_workflow_id = ''w1'', e_status = Failed, e_started_at = 4,
          e_completed_at = Some 5, e_error_message = Some ''timeout''\<rparr>,
         \<lparr>e_id = ''e3'', e_workflow_id = ''w1'', e_status = Completed, e_started_at = 6,
          e_completed_at = Some 7, e_error_message = None\<rparr>],
       execution_steps :=
        [\<lparr>s_id = ''t1'', s_execution_id = ''e1'', s_step_index = 0, s_name = ''A'',
          s_agent_type = Data, s_status = Completed,
          s_result_json = Some (JObj [(''rows'', JNum 3)]), s_error_message = None,
          s_started_at = Some 2, s_completed_at = Some 2\<rparr>,
         \<lparr>s_id = ''t2'', s_execution_id = ''e1'', s_step_index = 1, s_name = ''B'',
          s_agent_type = Communication, s_status = Completed,
          s_result_json = Some (JObj [(''sent'', JBool True)]), s_error_message = None,
          s_started_at = Some 2, s_completed_at = Some 3\<rparr>]\<rparr>"

definition store_running :: database where
  "store_running =
     store_three\<lparr>workflow_executions :=
        butlast (workflow_executions store_three) @
        [\<lparr>e_id = ''e3'', e_workflow_id = ''w1'', e_status = Running, e_started_at = 6,
          e_completed_at = None, e_error_message = None\<rparr>]\<rparr>"

section \<open>The loop: which calls and writes it makes\<close>

lemma run_steps_call_suffix:
  "CallRunner k s c \<in> set (run_steps run eid sid i ctx steps) \<Longrightarrow>
   \<exists>pre rest. run_steps run eid sid i ctx steps = pre @ run_steps run eid sid k c (s # rest)
      \<and> i \<le> k \<and> drop (k - i) steps = s # rest
      \<and> (\<forall>j s' c'. CallRunner j s' c' \<in> set pre \<longrightarrow> j < k)
      \<and> (\<forall>a b j n g st. InsertStep a b j n g st \<in> set pre \<longrightarrow> j < k)
      \<and> (\<forall>m a. FailStep m a \<notin> set pre)
      \<and> (\<forall>m a. FailExecution m a \<notin> set pre)
      \<and> (\<forall>a. CompleteExecution a \<notin> set pre)
      \<and> (\<forall>st r e a. UpdateStep st r e a \<in> set pre \<longrightarrow> st = Completed)"
proof (induction steps arbitrary: i ctx)
  case Nil
  then show ?case by simp
next
  case (Cons step rest0)
  show ?case
  proof (cases "k = i \<and> s = step \<and> c = ctx")
    case True
    then show ?thesis
      by (intro exI[of _ "[]"] exI[of _ rest0]) simp
  next
    case False
    with Cons.prems obtain res where res: "run i step ctx = Inr res" "success res"
      and mem: "CallRunner k s c \<in> set (run_steps run eid sid (i + 1) (Object_assign ctx (name step) (result res)) rest0)"
      by (auto split: sum.splits if_splits)
    from Cons.IH[OF mem] obtain pre rest where
      eq: "run_steps run eid sid (i + 1) (Object_assign ctx (name step) (result res)) rest0
             = pre @ run_steps run eid sid k c (s # rest)"
      and le: "i + 1 \<le> k" and dr: "drop (k - (i + 1)) rest0 = s # rest"
      and p1: "\<forall>j s' c'. CallRunner j s' c' \<in> set pre \<longrightarrow> j < k"
      and p2: "\<forall>a b j n g st. InsertStep a b j n g st \<in> set pre \<longrightarrow> j < k"
      and p3: "\<forall>m a. FailStep m a \<notin> set pre"
      and p4: "\<forall>m a. FailExecution m a \<notin> set pre"
      and p5: "\<forall>a. CompleteExecution a \<notin> set pre"
      and p6: "\<forall>st r e a. UpdateStep st r e a \<in> set pre \<longrightarrow> st = Completed"
      by blast
    let ?pre = "[InsertStep (sid i) eid i (name step) (agentType step) Running,
      Broadcast (StepUpdate eid (sid i) Running i None None),
      CallRunner i step ctx,
      UpdateStep Completed (result res) (error res) (sid i),
      Broadcast (StepUpdate eid (sid i) Completed i (result res) (error res))] @ pre"
    have "run_steps run eid sid i ctx (step # rest0) = ?pre @ run_steps run eid sid k c (s # rest)"
      using res eq by simp
    moreover have "drop (k - i) (step # rest0) = s # rest"
    proof -
      have "k - i = Suc (k - (i + 1))" using le by simp
      then show ?thesis using dr by simp
    qed
    moreover have "i \<le> k" using le by simp
    ultimately show ?thesis
      using p1 p2 p3 p4 p5 p6 le
      by (intro exI[of _ ?pre] exI[of _ rest]) auto
  qed
qed

lemma run_steps_call_range:
  "CallRunner k s c \<in> set (run_steps run eid sid i ctx steps) \<Longrightarrow> i \<le> k \<and> k < i + length steps \<and> s = steps ! (k - i)"
proof (induction steps arbitrary: i ctx)
  case Nil
  then show ?case by simp
next
  case (Cons step rest0)
  show ?case
  proof (cases "k = i \<and> s = step \<and> c = ctx")
    case True
    then show ?thesis by simp
  next
    case False
    with Cons.prems obtain res :: step_result where
      mem: "CallRunner k s c \<in> set (run_steps run eid sid (Suc i) (Object_assign ctx (name step) (result res)) rest0)"
      by (auto split: sum.splits if_splits)
    from Cons.IH[OF mem] have "Suc i \<le> k" "k < Suc i + length rest0" "s = rest0 ! (k - (Suc i))"
      by simp_all
    moreover from \<open>Suc i \<le> k\<close> have "k - i = Suc (k - (Suc i))" by arith
    ultimately show ?thesis by simp
  qed
qed

lemma run_steps_call_unique:
  "CallRunner k s c \<in> set (run_steps run eid sid i ctx steps) \<Longrightarrow>
   CallRunner k s' c' \<in> set (run_steps run eid sid i ctx steps) \<Longrightarrow> s' = s \<and> c' = c"
proof (induction steps arbitrary: i ctx)
  case Nil
  then show ?case by simp
next
  case (Cons step rest0)
  show ?case
  proof (cases "k = i")
    case True
    from Cons.prems run_steps_call_range[of k _ _ run eid sid "Suc i" _ rest0] True
    show ?thesis
      by (fastforce split: sum.splits if_splits)
  next
    case False
    with Cons.prems obtain res :: step_result where
      "CallRunner k s c \<in> set (run_steps run eid sid (Suc i) (Object_assign ctx (name step) (result res)) rest0)"
      "CallRunner k s' c' \<in> set (run_steps run eid sid (Suc i) (Object_assign ctx (name step) (result res)) rest0)"
      by (auto split: sum.splits if_splits)
    then show ?thesis by (rule Cons.IH)
  qed
qed

lemma proto_setter_entries: "entries (proto_setter ctx v) = entries ctx"
  by (cases "(ctx, v)" rule: proto_setter.cases) simp_all

lemma Object_assign_other:
  "key \<noteq> N \<Longrightarrow> entries (Object_assign ctx key v) N = entries ctx N"
  by (auto simp: Object_assign_def proto_setter_entries split: js_prototype.splits)

lemma Object_assign_named:
  "key \<noteq> ''__proto__'' \<Longrightarrow> entries (Object_assign ctx key v) key = Some v"
  by (simp add: Object_assign_def)

lemma Object_assign_entry:
  "entries (Object_assign ctx key v) N = Some w \<Longrightarrow> entries ctx N = Some w \<or> (key = N \<and> w = v)"
  by (cases "key = N")
     (auto simp: Object_assign_def proto_setter_entries Object_assign_other
           split: if_splits js_prototype.splits)

lemma run_steps_context_kept:
  "CallRunner k s c \<in> set (run_steps run eid sid i ctx steps) \<Longrightarrow>
   (\<forall>l. i \<le> l \<and> l < k \<longrightarrow> name (steps ! (l - i)) \<noteq> N) \<Longrightarrow> entries c N = entries ctx N"
proof (induction steps arbitrary: i ctx)
  case Nil
  then show ?case by simp
next
  case (Cons step rest0)
  show ?case
  proof (cases "k = i \<and> s = step \<and> c = ctx")
    case True
    then show ?thesis by simp
  next
    case False
    with Cons.prems(1) obtain res :: step_result where
      mem: "CallRunner k s c \<in> set (run_steps run eid sid (Suc i) (Object_assign ctx (name step) (result res)) rest0)"
      by (auto split: sum.splits if_splits)
    from run_steps_call_range[OF mem] have lt: "Suc i \<le> k" by simp
    have "\<forall>l. Suc i \<le> l \<and> l < k \<longrightarrow> name (rest0 ! (l - (Suc i))) \<noteq> N"
    proof (intro allI impI)
      fix l assume l: "Suc i \<le> l \<and> l < k"
      then have e: "l - i = Suc (l - Suc i)" by arith
      from l have "i \<le> l \<and> l < k" by simp
      with Cons.prems(2) have "name ((step # rest0) ! (l - i)) \<noteq> N" by blast
      then show "name (rest0 ! (l - Suc i)) \<noteq> N" by (simp add: e)
    qed
    from Cons.IH[OF mem this]
    have "entries c N = entries (Object_assign ctx (name step) (result res)) N" .
    moreover have "name step \<noteq> N"
    proof -
      from lt have "i \<le> i \<and> i < k" by simp
      with Cons.prems(2) have "name ((step # rest0) ! (i - i)) \<noteq> N" by blast
      then show ?thesis by simp
    qed
    ultimately show ?thesis by (simp add: Object_assign_other)
  qed
qed

lemma run_steps_context_origin:
  "CallRunner k s c \<in> set (run_steps run eid sid i ctx steps) \<Longrightarrow> entries c N = Some v \<Longrightarrow>
   entries ctx N = Some v \<or>
   (\<exists>j sj cj res. j < k \<and> CallRunner j sj cj \<in> set (run_steps run eid sid i ctx steps) \<and>
        name sj = N \<and> run j sj cj = Inr res \<and> success res \<and> result res = v)"
proof (induction steps arbitrary: i ctx)
  case Nil
  then show ?case by simp
next
  case (Cons step rest0)
  show ?case
  proof (cases "k = i \<and> s = step \<and> c = ctx")
    case True
    with Cons.prems show ?thesis by simp
  next
    case False
    with Cons.prems(1) obtain res :: step_result where res: "run i step ctx = Inr res" "success res" and
      mem: "CallRunner k s c \<in> set (run_steps run eid sid (Suc i) (Object_assign ctx (name step) (result res)) rest0)"
      by (auto split: sum.splits if_splits)
    from run_steps_call_range[OF mem] have lt: "i < k" by simp
    have sub: "set (run_steps run eid sid (Suc i) (Object_assign ctx (name step) (result res)) rest0)
                 \<subseteq> set (run_steps run eid sid i ctx (step # rest0))"
      using res by auto
    have hd: "CallRunner i step ctx \<in> set (run_steps run eid sid i ctx (step # rest0))"
      by simp
    from Cons.IH[OF mem Cons.prems(2)]
    consider "entries (Object_assign ctx (name step) (result res)) N = Some v"
      | j sj cj r where "j < k"
          "CallRunner j sj cj \<in> set (run_steps run eid sid (Suc i) (Object_assign ctx (name step) (result res)) rest0)"
          "name sj = N" "run j sj cj = Inr r" "success r" "result r = v"
      by blast
    then show ?thesis
    proof cases
      case 1
      from Object_assign_entry[OF 1]
      show ?thesis
      proof
        assume "entries ctx N = Some v"
        then show ?thesis by simp
      next
        assume "name step = N \<and> v = result res"
        with res lt hd show ?thesis by blast
      qed
    next
      case 2
      with sub show ?thesis by blast
    qed
  qed
qed

section \<open>The store under the writes\<close>

lemma perform_all_Nil [simp]: "perform_all db [] = db"
  by (simp add: perform_all_def)

lemma perform_all_Cons [simp]: "perform_all db (e # es) = perform_all (perform db e) es"
  by (simp add: perform_all_def)

lemma perform_all_append: "perform_all db (xs @ ys) = perform_all (perform_all db xs) ys"
  by (simp add: perform_all_def)

lemma steps_of_InsertStep:
  "execution_steps_of eid (perform d (InsertStep a b j n g st)) =
     (if b = eid
      then execution_steps_of eid d @
        [\<lparr>s_id = a, s_execution_id = b, s_step_index = j, s_name = n, s_agent_type = g,
          s_status = st, s_result_json = None, s_error_message = None,
          s_started_at = Some (current_timestamp d), s_completed_at = None\<rparr>]
      else execution_steps_of eid d)"
  by (simp add: execution_steps_of_def)

lemma steps_of_UpdateStep:
  "execution_steps_of eid (perform d (UpdateStep st res err a)) =
     map (\<lambda>r. if s_id r = a
              then r\<lparr>s_status := st, s_result_json := res, s_error_message := err,
                     s_completed_at := Some (current_timestamp d)\<rparr>
              else r) (execution_steps_of eid d)"
  by (simp add: execution_steps_of_def filter_map comp_def if_distrib[of s_execution_id] cong: if_cong)

lemma steps_of_FailStep:
  "execution_steps_of eid (perform d (FailStep msg a)) =
     map (\<lambda>r. if s_id r = a
              then r\<lparr>s_status := Failed, s_error_message := Some msg,
                     s_completed_at := Some (current_timestamp d)\<rparr>
              else r) (execution_steps_of eid d)"
  by (simp add: execution_steps_of_def filter_map comp_def if_distrib[of s_execution_id] cong: if_cong)

lemma steps_of_other [simp]:
  "execution_steps_of eid (perform d (InsertExecution a b st)) = execution_steps_of eid d"
  "execution_steps_of eid (perform d (FailExecution err a)) = execution_steps_of eid d"
  "execution_steps_of eid (perform d (CompleteExecution a)) = execution_steps_of eid d"
  "execution_steps_of eid (perform d (Broadcast m)) = execution_steps_of eid d"
  "execution_steps_of eid (perform d (CallRunner j s c)) = execution_steps_of eid d"
  by (simp_all add: execution_steps_of_def)

lemma ids_kept_fail:
  "e_id ` set (map (\<lambda>e. if e_id e = a then e\<lparr>e_status := st, e_error_message := err,
            e_completed_at := t\<rparr> else e) xs) = e_id ` set xs"
  by (induction xs) auto

lemma ids_kept_complete:
  "e_id ` set (map (\<lambda>e. if e_id e = a then e\<lparr>e_status := st,
            e_completed_at := t\<rparr> else e) xs) = e_id ` set xs"
  by (induction xs) auto

lemma execution_ids_perform:
  "x \<in> e_id ` set (workflow_executions d) \<Longrightarrow> x \<in> e_id ` set (workflow_executions (perform d e))"
proof (cases e)
  case (InsertExecution a b st)
  assume "x \<in> e_id ` set (workflow_executions d)"
  with InsertExecution show ?thesis by (simp add: perform.simps)
next
  case (InsertStep a b j n g st)
  assume "x \<in> e_id ` set (workflow_executions d)"
  with InsertStep show ?thesis by (simp add: perform.simps)
next
  case (UpdateStep st res err a)
  assume "x \<in> e_id ` set (workflow_executions d)"
  with UpdateStep show ?thesis by (simp add: perform.simps)
next
  case (FailStep msg a)
  assume "x \<in> e_id ` set (workflow_executions d)"
  with FailStep show ?thesis by (simp add: perform.simps)
next
  case (FailExecution err a)
  assume x: "x \<in> e_id ` set (workflow_executions d)"
  have h: "workflow_executions (perform d e) = map (\<lambda>e. if e_id e = a then e\<lparr>e_status := Failed, e_error_message := err,
            e_completed_at := Some (current_timestamp d)\<rparr> else e) (workflow_executions d)"
    unfolding FailExecution by (simp add: perform.simps)
  show ?thesis unfolding h ids_kept_fail by (rule x)
next
  case (CompleteExecution a)
  assume x: "x \<in> e_id ` set (workflow_executions d)"
  have h: "workflow_executions (perform d e) = map (\<lambda>e. if e_id e = a then e\<lparr>e_status := Completed,
            e_completed_at := Some (current_timestamp d)\<rparr> else e) (workflow_executions d)"
    unfolding CompleteExecution by (simp add: perform.simps)
  show ?thesis unfolding h ids_kept_complete by (rule x)
next
  case (Broadcast m)
  assume "x \<in> e_id ` set (workflow_executions d)"
  with Broadcast show ?thesis by simp
next
  case (CallRunner j s c)
  assume "x \<in> e_id ` set (workflow_executions d)"
  with CallRunner show ?thesis by simp
qed

lemma rows_after_write:
  "workflow_executions (perform d (FailExecution m a)) =
     map (\<lambda>e. if e_id e = a then e\<lparr>e_status := Failed, e_error_message := m,
        e_completed_at := Some (current_timestamp d)\<rparr> else e) (workflow_executions d)"
  "workflow_executions (perform d (CompleteExecution a)) =
     map (\<lambda>e. if e_id e = a then e\<lparr>e_status := Completed,
        e_completed_at := Some (current_timestamp d)\<rparr> else e) (workflow_executions d)"
  "execution_steps (perform d (UpdateStep st res m a)) =
     map (\<lambda>r. if s_id r = a then r\<lparr>s_status := st, s_result_json := res,
        s_error_message := m, s_completed_at := Some (current_timestamp d)\<rparr> else r) (execution_steps d)"
  "execution_steps (perform d (FailStep msg a)) =
     map (\<lambda>r. if s_id r = a then r\<lparr>s_status := Failed,
        s_error_message := Some msg, s_completed_at := Some (current_timestamp d)\<rparr> else r) (execution_steps d)"
  by (simp_all add: perform.simps)

lemma failed_execution_rows:
  assumes "e \<in> set (workflow_executions (perform d (FailExecution m a)))" and "e_id e = a"
  shows "e_status e = Failed \<and> e_error_message e = m"
proof -
  from assms(1) obtain x where "e = (if e_id x = a then x\<lparr>e_status := Failed, e_error_message := m,
        e_completed_at := Some (current_timestamp d)\<rparr> else x)"
    unfolding rows_after_write set_map by (rule imageE)
  with assms(2) show ?thesis by (cases "e_id x = a") simp_all
qed

lemma completed_execution_rows:
  assumes "e \<in> set (workflow_executions (perform d (CompleteExecution a)))" and "e_id e = a"
  shows "e_status e = Completed \<and> e_completed_at e = Some (current_timestamp d)"
proof -
  from assms(1) obtain x where "e = (if e_id x = a then x\<lparr>e_status := Completed,
        e_completed_at := Some (current_timestamp d)\<rparr> else x)"
    unfolding rows_after_write set_map by (rule imageE)
  with assms(2) show ?thesis by (cases "e_id x = a") simp_all
qed

lemma updated_step_rows:
  assumes "r \<in> set (execution_steps (perform d (UpdateStep st res m a)))" and "s_id r = a"
  shows "s_status r = st \<and> s_error_message r = m"
proof -
  from assms(1) obtain x where "r = (if s_id x = a then x\<lparr>s_status := st, s_result_json := res,
        s_error_message := m, s_completed_at := Some (current_timestamp d)\<rparr> else x)"
    unfolding rows_after_write set_map by (rule imageE)
  with assms(2) show ?thesis by (cases "s_id x = a") simp_all
qed

lemma failed_step_rows:
  assumes "r \<in> set (execution_steps (perform d (FailStep msg a)))" and "s_id r = a"
  shows "s_status r = Failed \<and> s_error_message r = Some msg"
proof -
  from assms(1) obtain x where "r = (if s_id x = a then x\<lparr>s_status := Failed,
        s_error_message := Some msg, s_completed_at := Some (current_timestamp d)\<rparr> else x)"
    unfolding rows_after_write set_map by (rule imageE)
  with assms(2) show ?thesis by (cases "s_id x = a") simp_all
qed

text \<open>From here on the writes are unfolded only where a proof asks for it.\<close>

declare perform.simps [simp del]

declare perform.simps(7,8) [simp]



lemma at_most_one_running:
  assumes "\<forall>r\<in>set (butlast rows). terminal (s_status r)"
  shows "length (filter (\<lambda>r. s_status r = Running) rows) \<le> 1"
proof (cases "rows = []")
  case True
  then show ?thesis by simp
next
  case False
  then have "rows = butlast rows @ [last rows]" by simp
  then have "filter (\<lambda>r. s_status r = Running) rows =
      filter (\<lambda>r. s_status r = Running) (butlast rows) @ filter (\<lambda>r. s_status r = Running) [last rows]"
    by (metis filter_append)
  moreover from assms have "filter (\<lambda>r. s_status r = Running) (butlast rows) = []"
    by (auto simp: filter_empty_conv terminal_def)
  ultimately show ?thesis by simp
qed

lemma sequential_head:
  assumes "map s_step_index (execution_steps_of eid d) = [0..<i]"
      and "\<forall>r\<in>set (execution_steps_of eid d). terminal (s_status r)"
  shows "map s_step_index (execution_steps_of eid d) = [0..<length (execution_steps_of eid d)] \<and>
         (\<forall>r\<in>set (butlast (execution_steps_of eid d)). terminal (s_status r))"
proof -
  from assms(1) have "length (execution_steps_of eid d) = i"
    by (metis length_map length_upt minus_nat.diff_0)
  with assms show ?thesis by (auto dest: in_set_butlastD)
qed

lemma sequential_loop:
  assumes "map s_step_index (execution_steps_of eid d0) = [0..<i]"
      and "\<forall>r\<in>set (execution_steps_of eid d0). terminal (s_status r)"
      and "d \<in> set (stores d0 (run_steps run eid sid i ctx steps))"
  shows "map s_step_index (execution_steps_of eid d) = [0..<length (execution_steps_of eid d)] \<and>
         (\<forall>r\<in>set (butlast (execution_steps_of eid d)). terminal (s_status r))"
  using assms
proof (induction steps arbitrary: i ctx d0)
  case Nil
  from Nil.prems(3) have "execution_steps_of eid d = execution_steps_of eid d0"
    by auto
  with sequential_head[OF Nil.prems(1,2)] show ?case by simp
next
  case (Cons step rest)
  let ?ins = "InsertStep (sid i) eid i (name step) (agentType step) Running"
  let ?d1 = "perform d0 ?ins"
  have len0: "length (execution_steps_of eid d0) = i"
    using Cons.prems(1) by (metis length_map length_upt minus_nat.diff_0)
  have rows1: "execution_steps_of eid ?d1 = execution_steps_of eid d0 @
      [\<lparr>s_id = sid i, s_execution_id = eid, s_step_index = i, s_name = name step,
        s_agent_type = agentType step, s_status = Running, s_result_json = None,
        s_error_message = None, s_started_at = Some (current_timestamp d0),
        s_completed_at = None\<rparr>]"
    by (simp add: steps_of_InsertStep)
  have inv1: "map s_step_index (execution_steps_of eid ?d1) = [0..<length (execution_steps_of eid ?d1)] \<and>
         (\<forall>r\<in>set (butlast (execution_steps_of eid ?d1)). terminal (s_status r))"
    unfolding rows1 using Cons.prems(1,2) len0 by simp
  have inv0: "map s_step_index (execution_steps_of eid d0) = [0..<length (execution_steps_of eid d0)] \<and>
         (\<forall>r\<in>set (butlast (execution_steps_of eid d0)). terminal (s_status r))"
    by (rule sequential_head[OF Cons.prems(1,2)])
  have upd: "map s_step_index (execution_steps_of eid (perform ?d1 u)) = [0..<Suc i] \<and>
             (\<forall>r\<in>set (execution_steps_of eid (perform ?d1 u)). terminal (s_status r))"
    if "u = UpdateStep st res err (sid i) \<and> terminal st \<or> u = FailStep msg (sid i)"
    for u st res err msg
    using that Cons.prems(1,2) len0
    by (auto simp: steps_of_UpdateStep steps_of_FailStep steps_of_InsertStep terminal_def comp_def
                   if_distrib[of s_step_index] cong: if_cong)
  show ?case
  proof (cases "run i step ctx")
    case (Inl msg)
    let ?d2 = "perform ?d1 (FailStep msg (sid i))"
    from Cons.prems(3) Inl have "d = d0 \<or> d = ?d1 \<or> d = ?d2 \<or>
        execution_steps_of eid d = execution_steps_of eid ?d2"
      by auto
    moreover have h2: "map s_step_index (execution_steps_of eid ?d2) = [0..<Suc i]"
       "\<forall>r\<in>set (execution_steps_of eid ?d2). terminal (s_status r)"
      using upd[of "FailStep msg (sid i)" Failed None None msg] by blast+
    moreover have "map s_step_index (execution_steps_of eid ?d2) = [0..<length (execution_steps_of eid ?d2)] \<and>
         (\<forall>r\<in>set (butlast (execution_steps_of eid ?d2)). terminal (s_status r))"
      by (rule sequential_head[OF h2])
    ultimately show ?thesis using inv0 inv1 by auto
  next
    case (Inr res)
    let ?st = "if success res then Completed else Failed"
    let ?d2 = "perform ?d1 (UpdateStep ?st (result res) (error res) (sid i))"
    have h2: "map s_step_index (execution_steps_of eid ?d2) = [0..<Suc i]"
       "\<forall>r\<in>set (execution_steps_of eid ?d2). terminal (s_status r)"
      using upd[of "UpdateStep ?st (result res) (error res) (sid i)" ?st "result res" "error res"]
      by (auto simp: terminal_def)
    have inv2: "map s_step_index (execution_steps_of eid ?d2) = [0..<length (execution_steps_of eid ?d2)] \<and>
         (\<forall>r\<in>set (butlast (execution_steps_of eid ?d2)). terminal (s_status r))"
      by (rule sequential_head[OF h2])
    show ?thesis
    proof (cases "success res")
      case False
      from Cons.prems(3) Inr False have "d = d0 \<or> d = ?d1 \<or> d = ?d2 \<or>
          execution_steps_of eid d = execution_steps_of eid ?d2"
        by auto
      then show ?thesis using inv0 inv1 inv2 by auto
    next
      case True
      from Cons.prems(3) Inr True have "d = d0 \<or> d = ?d1 \<or> d = ?d2 \<or>
          d \<in> set (stores ?d2 (run_steps run eid sid (Suc i) (Object_assign ctx (name step) (result res)) rest))"
        by auto
      moreover have "map s_step_index (execution_steps_of eid d) = [0..<length (execution_steps_of eid d)] \<and>
         (\<forall>r\<in>set (butlast (execution_steps_of eid d)). terminal (s_status r))"
        if "d \<in> set (stores ?d2 (run_steps run eid sid (Suc i) (Object_assign ctx (name step) (result res)) rest))"
        using Cons.IH[OF h2 that] .
      ultimately show ?thesis using inv0 inv1 inv2 by blast
    qed
  qed
qed

lemma stores_take: "perform_all db (take k effs) \<in> set (stores db effs)"
proof (induction effs arbitrary: db k)
  case Nil
  then show ?case by simp
next
  case (Cons e effs)
  then show ?case by (cases k) auto
qed


section \<open>Referential integrity is kept\<close>

lemma step_execution_ids_kept:
  "s_execution_id ` set (map (\<lambda>r. if s_id r = a then r\<lparr>s_status := st, s_result_json := res,
        s_error_message := m, s_completed_at := t\<rparr> else r) xs) = s_execution_id ` set xs"
  "s_execution_id ` set (map (\<lambda>r. if s_id r = a then r\<lparr>s_status := st,
        s_error_message := m, s_completed_at := t\<rparr> else r) xs) = s_execution_id ` set xs"
  by (induction xs) auto

lemma step_rows_untouched [simp]:
  "execution_steps (perform d (InsertExecution a b st)) = execution_steps d"
  "execution_steps (perform d (FailExecution err a)) = execution_steps d"
  "execution_steps (perform d (CompleteExecution a)) = execution_steps d"
  by (simp_all add: perform.simps)

lemma execution_rows_untouched [simp]:
  "workflow_executions (perform d (InsertStep a b j n g st)) = workflow_executions d"
  "workflow_executions (perform d (UpdateStep st res err a)) = workflow_executions d"
  "workflow_executions (perform d (FailStep msg a)) = workflow_executions d"
  by (simp_all add: perform.simps)

lemma references_ok_iff:
  "references_ok d \<longleftrightarrow> s_execution_id ` set (execution_steps d) \<subseteq> e_id ` set (workflow_executions d)"
  by (auto simp: references_ok_def)

lemma references_perform:
  assumes "references_ok d"
      and "\<And>a b j n g st. e = InsertStep a b j n g st \<Longrightarrow> b \<in> e_id ` set (workflow_executions d)"
  shows "references_ok (perform d e)"
proof (cases e)
  case (InsertExecution a b st)
  with assms(1) show ?thesis
    unfolding references_ok_iff by (auto simp: perform.simps)
next
  case (InsertStep a b j n g st)
  with assms show ?thesis
    unfolding references_ok_iff by (auto simp: perform.simps)
next
  case (UpdateStep st res err a)
  with assms(1) show ?thesis
    unfolding references_ok_iff UpdateStep rows_after_write step_execution_ids_kept
    by (simp only: execution_rows_untouched)
next
  case (FailStep msg a)
  with assms(1) show ?thesis
    unfolding references_ok_iff FailStep rows_after_write step_execution_ids_kept
    by (simp only: execution_rows_untouched)
next
  case (FailExecution err a)
  with assms(1) show ?thesis
    unfolding references_ok_iff FailExecution rows_after_write ids_kept_fail
    by (simp only: step_rows_untouched)
next
  case (CompleteExecution a)
  with assms(1) show ?thesis
    unfolding references_ok_iff CompleteExecution rows_after_write ids_kept_complete
    by (simp only: step_rows_untouched)
next
  case (Broadcast m)
  with assms(1) show ?thesis by simp
next
  case (CallRunner j s c)
  with assms(1) show ?thesis by simp
qed

lemma run_steps_inserts:
  "InsertStep a b j n g st \<in> set (run_steps run eid sid i ctx plan) \<Longrightarrow> b = eid \<and> st = Running"
  by (induction plan arbitrary: i ctx) (auto split: sum.splits if_splits)

lemma references_perform_all:
  assumes "references_ok d" and "eid \<in> e_id ` set (workflow_executions d)"
      and "\<And>a b j n g st. InsertStep a b j n g st \<in> set effs \<Longrightarrow> b = eid"
  shows "references_ok (perform_all d effs)"
  using assms
proof (induction effs arbitrary: d)
  case Nil
  then show ?case by simp
next
  case (Cons e effs)
  have "b \<in> e_id ` set (workflow_executions d)" if "e = InsertStep a b j n g st" for a b j n g st
  proof -
    from that have "InsertStep a b j n g st \<in> set (e # effs)" by simp
    then have "b = eid" by (rule Cons.prems(3))
    with Cons.prems(2) show ?thesis by simp
  qed
  with Cons.prems(1) have "references_ok (perform d e)"
    by (rule references_perform)
  moreover have "eid \<in> e_id ` set (workflow_executions (perform d e))"
    using Cons.prems(2) by (rule execution_ids_perform)
  moreover have "b = eid" if "InsertStep a b j n g st \<in> set effs" for a b j n g st
    using that Cons.prems(3)[of a b j n g st] by simp
  ultimately have "references_ok (perform_all (perform d e) effs)"
    by (rule Cons.IH)
  then show ?case by simp
qed

lemma references_ok_startExecution:
  assumes "references_ok db"
  shows "references_ok (perform_all db (snd (startExecution run eid sid db wid)))"
proof (cases "getWorkflow db wid")
  case None
  with assms show ?thesis by (simp add: startExecution_def)
next
  case (Some w)
  let ?d1 = "perform db (InsertExecution eid wid Running)"
  have "references_ok ?d1" using assms by (intro references_perform) auto
  moreover have "eid \<in> e_id ` set (workflow_executions ?d1)"
    by (simp add: perform.simps)
  ultimately have "references_ok (perform_all ?d1 (run_steps run eid sid 0 empty_context (w_steps_json w)))"
    by (rule references_perform_all) (auto dest: run_steps_inserts)
  with Some show ?thesis by (simp add: startExecution_def background_def)
qed

section \<open>The loop after a failure, and when every step succeeds\<close>

lemma execution_ids_perform_all:
  "x \<in> e_id ` set (workflow_executions d) \<Longrightarrow> x \<in> e_id ` set (workflow_executions (perform_all d effs))"
  by (induction effs arbitrary: d) (simp_all add: execution_ids_perform)

lemma step_row_kept:
  assumes "\<exists>r\<in>set (execution_steps d). s_id r = a \<and> s_execution_id r = b \<and> s_step_index r = j"
  shows "\<exists>r\<in>set (execution_steps (perform d e)). s_id r = a \<and> s_execution_id r = b \<and> s_step_index r = j"
proof -
  from assms obtain r where r: "r \<in> set (execution_steps d)" "s_id r = a" "s_execution_id r = b"
    "s_step_index r = j" by blast
  have kept: "\<exists>r'\<in>set (map (\<lambda>r. if s_id r = c then f r else r) (execution_steps d)).
      s_id r' = a \<and> s_execution_id r' = b \<and> s_step_index r' = j"
    if "s_id (f r) = s_id r" "s_execution_id (f r) = s_execution_id r" "s_step_index (f r) = s_step_index r"
    for c f
  proof -
    from r(1) have "(if s_id r = c then f r else r)
        \<in> set (map (\<lambda>r. if s_id r = c then f r else r) (execution_steps d))"
      unfolding set_map by (rule imageI)
    moreover from r that have "s_id (if s_id r = c then f r else r) = a \<and>
        s_execution_id (if s_id r = c then f r else r) = b \<and>
        s_step_index (if s_id r = c then f r else r) = j"
      by simp
    ultimately show ?thesis by blast
  qed
  show ?thesis
  proof (cases e)
    case (InsertStep a' b' j' n g st)
    from r have "r \<in> set (execution_steps (perform d e))"
      unfolding InsertStep by (simp add: perform.simps)
    with r show ?thesis by blast
  next
    case (UpdateStep st res err c)
    show ?thesis
      unfolding UpdateStep rows_after_write by (rule kept) simp_all
  next
    case (FailStep msg c)
    show ?thesis
      unfolding FailStep rows_after_write by (rule kept) simp_all
  next
    case (InsertExecution a' b' st)
    with assms show ?thesis by simp
  next
    case (FailExecution err a')
    with assms show ?thesis by simp
  next
    case (CompleteExecution a')
    with assms show ?thesis by simp
  next
    case (Broadcast m)
    with assms show ?thesis by simp
  next
    case (CallRunner j' s c)
    with assms show ?thesis by simp
  qed
qed

lemma run_steps_failed:
  assumes "failed (run i step ctx)"
  shows "\<exists>u. run_steps run eid sid i ctx (step # rest) =
           [InsertStep (sid i) eid i (name step) (agentType step) Running,
            Broadcast (StepUpdate eid (sid i) Running i None None),
            CallRunner i step ctx] @ u @
           [FailExecution (failure_message (run i step ctx)) eid,
            Broadcast (ExecutionUpdate eid Failed (failure_message (run i step ctx)))] \<and>
         ((\<exists>msg. u = [FailStep msg (sid i)] \<and> failure_message (run i step ctx) = Some msg) \<or>
          (\<exists>r. u = [UpdateStep Failed r (failure_message (run i step ctx)) (sid i),
                    Broadcast (StepUpdate eid (sid i) Failed i r (failure_message (run i step ctx)))]))"
proof (cases "run i step ctx")
  case (Inl msg)
  then show ?thesis by simp
next
  case (Inr res)
  with assms show ?thesis by simp
qed

lemma failed_tail_store:
  assumes "eid \<in> e_id ` set (workflow_executions dA)"
      and "(\<exists>msg. u = [FailStep msg (sid i)] \<and> m = Some msg) \<or>
           (\<exists>r. u = [UpdateStep Failed r m (sid i), Broadcast (StepUpdate eid (sid i) Failed i r m)])"
      and d'_def: "d' = perform_all dA
           ([InsertStep (sid i) eid i nm ag Running,
             Broadcast (StepUpdate eid (sid i) Running i None None),
             CallRunner i step ctx] @ u @
            [FailExecution m eid, Broadcast (ExecutionUpdate eid Failed m)])"
  shows "(\<exists>e\<in>set (workflow_executions d'). e_id e = eid) \<and>
         (\<forall>e\<in>set (workflow_executions d'). e_id e = eid \<longrightarrow>
              e_status e = Failed \<and> e_error_message e = m) \<and>
         (\<exists>r\<in>set (execution_steps d'). s_id r = sid i \<and> s_execution_id r = eid \<and> s_step_index r = i) \<and>
         (\<forall>r\<in>set (execution_steps d'). s_id r = sid i \<longrightarrow>
              s_status r = Failed \<and> s_error_message r = m)"
proof -
  let ?ins = "InsertStep (sid i) eid i nm ag Running"
  let ?m = "FailExecution m eid"
  from assms(2) obtain w where u: "u = [w] \<or> (\<exists>b. u = [w, Broadcast b])"
    and w: "(\<exists>msg. w = FailStep msg (sid i) \<and> m = Some msg) \<or> (\<exists>r. w = UpdateStep Failed r m (sid i))"
    by blast
  let ?d2 = "perform (perform dA ?ins) w"
  from u have d': "d' = perform ?d2 ?m"
    unfolding d'_def by auto
  have "eid \<in> e_id ` set (workflow_executions ?d2)"
    using assms(1) by (intro execution_ids_perform)
  then have "eid \<in> e_id ` set (workflow_executions d')"
    unfolding d' by (rule execution_ids_perform)
  then have a: "\<exists>e\<in>set (workflow_executions d'). e_id e = eid" by auto
  have b: "\<forall>e\<in>set (workflow_executions d'). e_id e = eid \<longrightarrow>
              e_status e = Failed \<and> e_error_message e = m"
    unfolding d' using failed_execution_rows by blast
  have "\<exists>r\<in>set (execution_steps (perform dA ?ins)). s_id r = sid i \<and> s_execution_id r = eid \<and> s_step_index r = i"
    by (simp add: perform.simps)
  then have "\<exists>r\<in>set (execution_steps ?d2). s_id r = sid i \<and> s_execution_id r = eid \<and> s_step_index r = i"
    by (rule step_row_kept)
  then have c: "\<exists>r\<in>set (execution_steps d'). s_id r = sid i \<and> s_execution_id r = eid \<and> s_step_index r = i"
    unfolding d' by simp
  have "\<forall>r\<in>set (execution_steps ?d2). s_id r = sid i \<longrightarrow> s_status r = Failed \<and> s_error_message r = m"
    using w updated_step_rows[of _ "perform dA ?ins"] failed_step_rows[of _ "perform dA ?ins"] by blast
  then have d: "\<forall>r\<in>set (execution_steps d'). s_id r = sid i \<longrightarrow> s_status r = Failed \<and> s_error_message r = m"
    unfolding d' by simp
  from a b c d show ?thesis by blast
qed

lemma run_steps_all_succeed:
  assumes "\<forall>j s c. CallRunner j s c \<in> set (run_steps run eid sid i ctx plan) \<longrightarrow> \<not> failed (run j s c)"
  shows "\<exists>pre. run_steps run eid sid i ctx plan =
           pre @ [CompleteExecution eid, Broadcast (ExecutionUpdate eid Completed None)] \<and>
         List.map_filter step_update pre = map (\<lambda>j. (sid j, Completed)) [i..<i + length plan] \<and>
         (\<forall>e\<in>set pre. \<not> execution_update e) \<and>
         (\<forall>a b st. InsertExecution a b st \<notin> set pre)"
  using assms
proof (induction plan arbitrary: i ctx)
  case Nil
  show ?case by (intro exI[of _ "[]"]) (simp add: List.map_filter_def)
next
  case (Cons step rest)
  have "CallRunner i step ctx \<in> set (run_steps run eid sid i ctx (step # rest))" by simp
  with Cons.prems have "\<not> failed (run i step ctx)" by blast
  then obtain res where res: "run i step ctx = Inr res" "success res"
    by (cases "run i step ctx") auto
  let ?ctx' = "Object_assign ctx (name step) (result res)"
  let ?five = "[InsertStep (sid i) eid i (name step) (agentType step) Running,
      Broadcast (StepUpdate eid (sid i) Running i None None),
      CallRunner i step ctx,
      UpdateStep Completed (result res) (error res) (sid i),
      Broadcast (StepUpdate eid (sid i) Completed i (result res) (error res))]"
  have unfold: "run_steps run eid sid i ctx (step # rest) =
      ?five @ run_steps run eid sid (Suc i) ?ctx' rest"
    using res by simp
  have "\<forall>j s c. CallRunner j s c \<in> set (run_steps run eid sid (Suc i) ?ctx' rest) \<longrightarrow> \<not> failed (run j s c)"
    using Cons.prems unfolding unfold by auto
  from Cons.IH[OF this] obtain pre where
    pre: "run_steps run eid sid (Suc i) ?ctx' rest =
           pre @ [CompleteExecution eid, Broadcast (ExecutionUpdate eid Completed None)]"
    and upd: "List.map_filter step_update pre = map (\<lambda>j. (sid j, Completed)) [Suc i..<Suc i + length rest]"
    and noex: "\<forall>e\<in>set pre. \<not> execution_update e"
    and noins: "\<forall>a b st. InsertExecution a b st \<notin> set pre"
    by blast
  have "List.map_filter step_update (?five @ pre) =
      (sid i, Completed) # List.map_filter step_update pre"
    by (simp add: List.map_filter_def)
  also have "\<dots> = map (\<lambda>j. (sid j, Completed)) [i..<i + length (step # rest)]"
  proof -
    have "[i..<i + length (step # rest)] = i # [Suc i..<Suc i + length rest]"
      by (subst upt_rec) simp
    then show ?thesis unfolding upd by simp
  qed
  finally have "List.map_filter step_update (?five @ pre) =
      map (\<lambda>j. (sid j, Completed)) [i..<i + length (step # rest)]" .
  moreover have "run_steps run eid sid i ctx (step # rest) =
      (?five @ pre) @ [CompleteExecution eid, Broadcast (ExecutionUpdate eid Completed None)]"
    unfolding unfold pre by simp
  moreover have "\<forall>e\<in>set (?five @ pre). \<not> execution_update e"
    using noex by simp
  moreover have "\<forall>a b st. InsertExecution a b st \<notin> set (?five @ pre)"
    using noins by simp
  ultimately show ?case by blast
qed

lemma completed_loop:
  assumes "map s_step_index (execution_steps_of eid d0) = [0..<i]"
      and "\<forall>r\<in>set (execution_steps_of eid d0). s_status r = Completed"
      and "\<forall>j s c. CallRunner j s c \<in> set (run_steps run eid sid i ctx plan) \<longrightarrow> \<not> failed (run j s c)"
  shows "map s_step_index (execution_steps_of eid (perform_all d0 (run_steps run eid sid i ctx plan)))
           = [0..<i + length plan] \<and>
         (\<forall>r\<in>set (execution_steps_of eid (perform_all d0 (run_steps run eid sid i ctx plan))).
            s_status r = Completed)"
  using assms
proof (induction plan arbitrary: i ctx d0)
  case Nil
  then show ?case by simp
next
  case (Cons step rest)
  have "CallRunner i step ctx \<in> set (run_steps run eid sid i ctx (step # rest))" by simp
  with Cons.prems(3) have "\<not> failed (run i step ctx)" by blast
  then obtain res where res: "run i step ctx = Inr res" "success res"
    by (cases "run i step ctx") auto
  let ?ctx' = "Object_assign ctx (name step) (result res)"
  let ?d2 = "perform (perform d0 (InsertStep (sid i) eid i (name step) (agentType step) Running))
               (UpdateStep Completed (result res) (error res) (sid i))"
  have unfold: "run_steps run eid sid i ctx (step # rest) =
      [InsertStep (sid i) eid i (name step) (agentType step) Running,
      Broadcast (StepUpdate eid (sid i) Running i None None),
      CallRunner i step ctx,
      UpdateStep Completed (result res) (error res) (sid i),
      Broadcast (StepUpdate eid (sid i) Completed i (result res) (error res))]
      @ run_steps run eid sid (Suc i) ?ctx' rest"
    using res by simp
  have final: "perform_all d0 (run_steps run eid sid i ctx (step # rest)) =
      perform_all ?d2 (run_steps run eid sid (Suc i) ?ctx' rest)"
    unfolding unfold by simp
  have h: "map s_step_index (execution_steps_of eid ?d2) = [0..<Suc i]"
          "\<forall>r\<in>set (execution_steps_of eid ?d2). s_status r = Completed"
    using Cons.prems(1,2)
    by (auto simp: steps_of_UpdateStep steps_of_InsertStep comp_def
                   if_distrib[of s_step_index] cong: if_cong)
  have "\<forall>j s c. CallRunner j s c \<in> set (run_steps run eid sid (Suc i) ?ctx' rest) \<longrightarrow> \<not> failed (run j s c)"
    using Cons.prems(3) unfolding unfold by auto
  from Cons.IH[OF h this] have
    "map s_step_index (execution_steps_of eid (perform_all ?d2 (run_steps run eid sid (Suc i) ?ctx' rest)))
       = [0..<Suc i + length rest]"
    "\<forall>r\<in>set (execution_steps_of eid (perform_all ?d2 (run_steps run eid sid (Suc i) ?ctx' rest))).
       s_status r = Completed"
    by blast+
  moreover have "Suc i + length rest = i + length (step # rest)" by simp
  ultimately show ?case
    unfolding final by (simp only: simp_thms)
qed

lemma running_kept:
  assumes "\<forall>e\<in>set (workflow_executions d). e_id e = eid \<longrightarrow> e_status e = Running"
      and "\<not> execution_update x"
      and "\<And>a b st. x = InsertExecution a b st \<Longrightarrow> st = Running"
  shows "\<forall>e\<in>set (workflow_executions (perform d x)). e_id e = eid \<longrightarrow> e_status e = Running"
proof (cases x)
  case (InsertExecution a b st)
  with assms(3) have "st = Running" by blast
  with assms(1) InsertExecution show ?thesis by (auto simp: perform.simps)
qed (use assms in simp_all)

lemma stores_running:
  assumes "\<forall>e\<in>set (workflow_executions d). e_id e = eid \<longrightarrow> e_status e = Running"
      and "\<forall>x\<in>set effs. \<not> execution_update x"
      and "\<And>a b st. InsertExecution a b st \<in> set effs \<Longrightarrow> st = Running"
      and "d' \<in> set (stores d effs)"
  shows "\<forall>e\<in>set (workflow_executions d'). e_id e = eid \<longrightarrow> e_status e = Running"
  using assms
proof (induction effs arbitrary: d)
  case Nil
  then show ?case by simp
next
  case (Cons x effs)
  show ?case
  proof (cases "d' = d")
    case True
    with Cons.prems(1) show ?thesis by simp
  next
    case False
    with Cons.prems(4) have mem: "d' \<in> set (stores (perform d x) effs)" by simp
    have nx: "\<not> execution_update x" using Cons.prems(2) by simp
    have "st = Running" if "x = InsertExecution a b st" for a b st
      using that Cons.prems(3)[of a b st] by simp
    with Cons.prems(1) nx
    have "\<forall>e\<in>set (workflow_executions (perform d x)). e_id e = eid \<longrightarrow> e_status e = Running"
      by (rule running_kept)
    moreover have "\<forall>x\<in>set effs. \<not> execution_update x" using Cons.prems(2) by simp
    moreover have "st = Running" if "InsertExecution a b st \<in> set effs" for a b st
      using that Cons.prems(3)[of a b st] by simp
    ultimately show ?thesis using mem by (rule Cons.IH)
  qed
qed


section \<open>The context from call to call\<close>

lemma run_steps_next_call:
  assumes "CallRunner i s c \<in> set (run_steps run eid sid 0 ctx0 plan)"
      and "run i s c = Inr res" and "success res" and "Suc i < length plan"
  shows "CallRunner (Suc i) (plan ! Suc i) (Object_assign c (name s) (result res))
           \<in> set (run_steps run eid sid 0 ctx0 plan)"
proof -
  from run_steps_call_suffix[OF assms(1)] obtain pre rest where
    T: "run_steps run eid sid 0 ctx0 plan = pre @ run_steps run eid sid i c (s # rest)"
    and dr: "drop (i - 0) plan = s # rest"
    by blast
  from dr have dr': "drop i plan = s # rest" by simp
  then have "drop (Suc i) plan = rest"
    by (metis drop_Suc list.sel(3) tl_drop)
  with assms(4) obtain rest' where rest: "rest = plan ! Suc i # rest'"
    by (metis Cons_nth_drop_Suc)
  have "run_steps run eid sid i c (s # rest) =
      [InsertStep (sid i) eid i (name s) (agentType s) Running,
      Broadcast (StepUpdate eid (sid i) Running i None None),
      CallRunner i s c,
      UpdateStep Completed (result res) (error res) (sid i),
      Broadcast (StepUpdate eid (sid i) Completed i (result res) (error res))]
      @ run_steps run eid sid (Suc i) (Object_assign c (name s) (result res)) rest"
    using assms(2,3) by simp
  moreover have "CallRunner (Suc i) (plan ! Suc i) (Object_assign c (name s) (result res))
      \<in> set (run_steps run eid sid (Suc i) (Object_assign c (name s) (result res)) rest)"
    unfolding rest by simp
  ultimately show ?thesis unfolding T by simp
qed

lemma run_steps_last_write:
  assumes cj: "CallRunner j sj cj \<in> set (run_steps run eid sid 0 ctx0 plan)"
      and ck: "CallRunner k sk ck \<in> set (run_steps run eid sid 0 ctx0 plan)"
      and jk: "j < k"
      and between: "\<forall>l. j < l \<and> l < k \<longrightarrow> name (plan ! l) \<noteq> name sj"
      and plain: "name sj \<noteq> ''__proto__''"
  shows "\<exists>res. run j sj cj = Inr res \<and> success res \<and>
           entries ck (name sj) = Some (result res)"
proof -
  from run_steps_call_suffix[OF cj] obtain pre rest where
    T: "run_steps run eid sid 0 ctx0 plan = pre @ run_steps run eid sid j cj (sj # rest)"
    and dr: "drop (j - 0) plan = sj # rest"
    and p1: "\<forall>i s' c'. CallRunner i s' c' \<in> set pre \<longrightarrow> i < j"
    by blast
  from dr have dr': "drop j plan = sj # rest" by simp
  have "CallRunner k sk ck \<notin> set pre"
  proof
    assume "CallRunner k sk ck \<in> set pre"
    with p1 have "k < j" by blast
    with jk show False by simp
  qed
  with ck have "CallRunner k sk ck \<in> set (run_steps run eid sid j cj (sj # rest))"
    unfolding T by (simp del: run_steps.simps)
  with jk obtain res where res: "run j sj cj = Inr res" "success res"
    and mem: "CallRunner k sk ck \<in> set (run_steps run eid sid (Suc j) (Object_assign cj (name sj) (result res)) rest)"
    by (auto split: sum.splits if_splits)
  have "\<forall>l. Suc j \<le> l \<and> l < k \<longrightarrow> name (rest ! (l - Suc j)) \<noteq> name sj"
  proof (intro allI impI)
    fix l assume l: "Suc j \<le> l \<and> l < k"
    from run_steps_call_range[OF ck] have "k < length plan" by simp
    with l have "l < length plan" by simp
    then have "plan ! l = drop j plan ! (l - j)" using l by simp
    also have "\<dots> = rest ! (l - Suc j)"
      unfolding dr' using l by (simp add: nth_Cons')
    finally have "plan ! l = rest ! (l - Suc j)" .
    moreover from l between have "name (plan ! l) \<noteq> name sj" by simp
    ultimately show "name (rest ! (l - Suc j)) \<noteq> name sj" by simp
  qed
  from run_steps_context_kept[OF mem this] plain
  have "entries ck (name sj) = Some (result res)" by (simp add: Object_assign_named)
  with res show ?thesis by blast
qed

lemma run_steps_first_context:
  "CallRunner 0 s c \<in> set (run_steps run eid sid 0 ctx0 plan) \<Longrightarrow> c = ctx0"
proof (cases plan)
  case Nil
  assume "CallRunner 0 s c \<in> set (run_steps run eid sid 0 ctx0 plan)"
  with Nil show ?thesis by simp
next
  case (Cons step rest)
  assume a: "CallRunner 0 s c \<in> set (run_steps run eid sid 0 ctx0 plan)"
  have "CallRunner 0 step ctx0 \<in> set (run_steps run eid sid 0 ctx0 plan)"
    unfolding Cons by simp
  from run_steps_call_unique[OF this a] show ?thesis by simp
qed

lemma run_steps_stop:
  assumes "CallRunner i s c \<in> set (run_steps run eid sid 0 ctx0 plan)"
      and "failed (run i s c)"
      and "CallRunner k sk ck \<in> set (run_steps run eid sid 0 ctx0 plan)"
  shows "k \<le> i"
proof -
  from run_steps_call_suffix[OF assms(1)] obtain pre rest where
    T: "run_steps run eid sid 0 ctx0 plan = pre @ run_steps run eid sid i c (s # rest)"
    and p1: "\<forall>j s' c'. CallRunner j s' c' \<in> set pre \<longrightarrow> j < i"
    by blast
  from run_steps_failed[where run=run and i=i and step=s and ctx=c and eid=eid and sid=sid and rest=rest, OF assms(2)]
  obtain u where tail: "run_steps run eid sid i c (s # rest) =
           [InsertStep (sid i) eid i (name s) (agentType s) Running,
            Broadcast (StepUpdate eid (sid i) Running i None None),
            CallRunner i s c] @ u @
           [FailExecution (failure_message (run i s c)) eid,
            Broadcast (ExecutionUpdate eid Failed (failure_message (run i s c)))]"
    and u: "(\<exists>msg. u = [FailStep msg (sid i)] \<and> failure_message (run i s c) = Some msg) \<or>
          (\<exists>r. u = [UpdateStep Failed r (failure_message (run i s c)) (sid i),
                    Broadcast (StepUpdate eid (sid i) Failed i r (failure_message (run i s c)))])"
    by blast
  from assms(3) consider "CallRunner k sk ck \<in> set pre" | "k = i"
    unfolding T tail using u by auto
  then show ?thesis
  proof cases
    case 1
    with p1 have "k < i" by blast
    then show ?thesis by simp
  next
    case 2
    then show ?thesis by simp
  qed
qed

text \<open>
  What does hold of the contexts, for every plan and runner: the first call gets the
  empty context and each step is called at most once; the context of call \<open>i + 1\<close> is
  that of call \<open>i\<close> after \<open>Object.assign\<close> with the name and the result of step \<open>i\<close>; for a
  step name other than \<open>__proto__\<close> the last write wins; every entry is the result of an
  earlier successful call of that name; and no call follows a failed one.
\<close>

lemma context_from_call_to_call:
  "(\<forall>s c. CallRunner 0 s c \<in> set (background run eid sid plan) \<longrightarrow> c = empty_context) \<and>
   (\<forall>k s c s' c'. CallRunner k s c \<in> set (background run eid sid plan) \<and>
        CallRunner k s' c' \<in> set (background run eid sid plan) \<longrightarrow> s' = s \<and> c' = c) \<and>
   (\<forall>i s c res. CallRunner i s c \<in> set (background run eid sid plan) \<and>
        run i s c = Inr res \<and> success res \<and> Suc i < length plan \<longrightarrow>
        CallRunner (Suc i) (plan ! Suc i) (Object_assign c (name s) (result res))
          \<in> set (background run eid sid plan)) \<and>
   (\<forall>j k sj cj sk ck. CallRunner j sj cj \<in> set (background run eid sid plan) \<and>
        CallRunner k sk ck \<in> set (background run eid sid plan) \<and> j < k \<and>
        (\<forall>l. j < l \<and> l < k \<longrightarrow> name (plan ! l) \<noteq> name sj) \<and>
        name sj \<noteq> ''__proto__'' \<longrightarrow>
        (\<exists>res. run j sj cj = Inr res \<and> success res \<and>
           entries ck (name sj) = Some (result res))) \<and>
   (\<forall>k sk ck N v. CallRunner k sk ck \<in> set (background run eid sid plan) \<and>
        entries ck N = Some v \<longrightarrow>
        (\<exists>j sj cj res. j < k \<and> CallRunner j sj cj \<in> set (background run eid sid plan) \<and>
            name sj = N \<and> run j sj cj = Inr res \<and> success res \<and> result res = v)) \<and>
   (\<forall>i s c k sk ck. CallRunner i s c \<in> set (background run eid sid plan) \<and>
        failed (run i s c) \<and> CallRunner k sk ck \<in> set (background run eid sid plan) \<longrightarrow> k \<le> i)"
proof -
  let ?T = "run_steps run eid sid 0 empty_context plan"
  have mem: "CallRunner k s c \<in> set (background run eid sid plan) \<longleftrightarrow> CallRunner k s c \<in> set ?T"
    for k s c
    by (simp add: background_def del: run_steps.simps)
  have first: "\<forall>s c. CallRunner 0 s c \<in> set ?T \<longrightarrow> c = empty_context"
    using run_steps_first_context by blast
  have once: "\<forall>k s c s' c'. CallRunner k s c \<in> set ?T \<and> CallRunner k s' c' \<in> set ?T \<longrightarrow>
      s' = s \<and> c' = c"
    using run_steps_call_unique by blast
  have "next": "\<forall>i s c res. CallRunner i s c \<in> set ?T \<and> run i s c = Inr res \<and> success res \<and>
      Suc i < length plan \<longrightarrow>
      CallRunner (Suc i) (plan ! Suc i) (Object_assign c (name s) (result res)) \<in> set ?T"
    using run_steps_next_call by blast
  have latest: "\<forall>j k sj cj sk ck. CallRunner j sj cj \<in> set ?T \<and> CallRunner k sk ck \<in> set ?T \<and>
      j < k \<and> (\<forall>l. j < l \<and> l < k \<longrightarrow> name (plan ! l) \<noteq> name sj) \<and>
      name sj \<noteq> ''__proto__'' \<longrightarrow>
      (\<exists>res. run j sj cj = Inr res \<and> success res \<and> entries ck (name sj) = Some (result res))"
    using run_steps_last_write by blast
  have origin: "\<forall>k sk ck N v. CallRunner k sk ck \<in> set ?T \<and> entries ck N = Some v \<longrightarrow>
      (\<exists>j sj cj res. j < k \<and> CallRunner j sj cj \<in> set ?T \<and>
          name sj = N \<and> run j sj cj = Inr res \<and> success res \<and> result res = v)"
  proof (intro allI impI)
    fix k sk ck N v
    assume a: "CallRunner k sk ck \<in> set ?T \<and> entries ck N = Some v"
    then have "CallRunner k sk ck \<in> set ?T" and "entries ck N = Some v" by simp_all
    from run_steps_context_origin[OF this]
    show "\<exists>j sj cj res. j < k \<and> CallRunner j sj cj \<in> set ?T \<and>
          name sj = N \<and> run j sj cj = Inr res \<and> success res \<and> result res = v"
      by (simp add: empty_context_def)
  qed
  have stop: "\<forall>i s c k sk ck. CallRunner i s c \<in> set ?T \<and> failed (run i s c) \<and>
      CallRunner k sk ck \<in> set ?T \<longrightarrow> k \<le> i"
    using run_steps_stop by blast
  show ?thesis
    unfolding mem using first once "next" latest origin stop by (intro conjI)
qed

section \<open>Rounding and grouping\<close>

lemma Math_round_0: "Math_round 0 = 0"
  unfolding Math_round_def by (simp add: floor_eq_iff)

lemma Math_round_ratio:
  assumes "0 < b"
  shows "Math_round (of_nat a * 100 / of_nat b) = (200 * int a + int b) div (2 * int b)"
proof -
  have "(of_nat a * 100 / of_nat b + 1 / 2 :: rat) = of_int (200 * int a + int b) / of_int (2 * int b)"
    using assms by (simp add: field_simps)
  then show ?thesis
    unfolding Math_round_def by (simp only: floor_divide_of_int_eq)
qed

lemma Math_round_nearest: "\<bar>of_int (Math_round x) - x\<bar> \<le> 1 / 2"
  unfolding Math_round_def by linarith

lemma count_status_total:
  "count_status Completed rows + count_status Failed rows + count_status Pending rows
     + count_status Running rows = length rows"
proof (induction rows)
  case Nil
  then show ?case by (simp add: count_status_def)
next
  case (Cons e rows)
  then show ?case by (cases "e_status e") (simp_all add: count_status_def)
qed

lemma group_by_status_lookup:
  "map_of (group_by_status rows) st =
     (if count_status st rows = 0 then None else Some (count_status st rows))"
  by (cases st) (simp_all add: group_by_status_def)

lemma group_by_status_distinct: "distinct (map fst (group_by_status rows))"
  by (simp add: group_by_status_def comp_def distinct_map_filter)

lemma sum_list_positive_only:
  "sum_list (map f (filter (\<lambda>x. 0 < f x) xs)) = sum_list (map f xs)" for f :: "'a \<Rightarrow> nat"
  by (induction xs) simp_all

lemma group_by_status_sum: "sum_list (map snd (group_by_status rows)) = length rows"
proof -
  have "sum_list (map snd (group_by_status rows)) =
          sum_list (map (\<lambda>st. count_status st rows) [Completed, Failed, Pending, Running])"
    unfolding group_by_status_def map_map comp_def snd_conv
    by (rule sum_list_positive_only)
  then show ?thesis using count_status_total[of rows] by simp
qed


text \<open>The definitions that the scenarios unfold.\<close>

lemmas scenario_defs = startExecution_def getWorkflow_def background_def store_AB_def stepA_def stepB_def
  stepP_def plan_PB_def empty_context_def Object_assign_def
  step_ids_def runner_success_def runner_timeout_def runner_throws_def perform.simps execution_steps_of_def


section \<open>The execution loop\<close>

text \<open>
  C1. Let the runner be called for step \<open>i\<close> and fail there: it throws, or it returns a
  value whose \<open>success\<close> is false. Then no step row of an index above \<open>i\<close> is ever
  inserted and the runner is not called again; the run ends with the update of the
  execution to Failed and its broadcast, and never writes Completed. In the store
  after the run, the execution row is Failed and carries the error message that the row
  of step \<open>i\<close> carries: \<open>error.message\<close> of the fault, or \<open>result.error\<close> of the value.
\<close>

theorem failing_step_halts:
  assumes "startExecution run eid sid db wid = (resp, effs)"
      and "CallRunner i step ctx \<in> set effs"
      and "failed (run i step ctx)"
  shows "(\<forall>a b j n g st. InsertStep a b j n g st \<in> set effs \<longrightarrow> j \<le> i) \<and>
         (\<forall>j s c. CallRunner j s c \<in> set effs \<longrightarrow> j \<le> i) \<and>
         (\<exists>pre. effs = pre @
            [FailExecution (failure_message (run i step ctx)) eid,
             Broadcast (ExecutionUpdate eid Failed (failure_message (run i step ctx)))]) \<and>
         (\<forall>a. CompleteExecution a \<notin> set effs) \<and>
         (\<exists>e\<in>set (workflow_executions (perform_all db effs)). e_id e = eid) \<and>
         (\<forall>e\<in>set (workflow_executions (perform_all db effs)). e_id e = eid \<longrightarrow>
            e_status e = Failed \<and> e_error_message e = failure_message (run i step ctx)) \<and>
         (\<exists>r\<in>set (execution_steps (perform_all db effs)).
            s_id r = sid i \<and> s_execution_id r = eid \<and> s_step_index r = i) \<and>
         (\<forall>r\<in>set (execution_steps (perform_all db effs)). s_id r = sid i \<longrightarrow>
            s_status r = Failed \<and> s_error_message r = failure_message (run i step ctx))"
proof -
  let ?m = "failure_message (run i step ctx)"
  from assms(1,2) obtain w where w: "getWorkflow db wid = Some w"
    by (cases "getWorkflow db wid") (auto simp: startExecution_def)
  let ?T = "run_steps run eid sid 0 empty_context (w_steps_json w)"
  let ?head = "[InsertExecution eid wid Running, Broadcast (ExecutionUpdate eid Running None)]"
  from w assms(1) have effs: "effs = ?head @ ?T"
    by (auto simp: startExecution_def background_def)
  with assms(2) have "CallRunner i step ctx \<in> set ?T" by simp
  from run_steps_call_suffix[OF this] obtain pre rest where
    T: "?T = pre @ run_steps run eid sid i ctx (step # rest)"
    and p1: "\<forall>j s' c'. CallRunner j s' c' \<in> set pre \<longrightarrow> j < i"
    and p2: "\<forall>a b j n g st. InsertStep a b j n g st \<in> set pre \<longrightarrow> j < i"
    and p5: "\<forall>a. CompleteExecution a \<notin> set pre"
    by blast
  from run_steps_failed[where run=run and i=i and step=step and ctx=ctx and eid=eid and sid=sid and rest=rest, OF assms(3)] obtain u where
    tail: "run_steps run eid sid i ctx (step # rest) =
           [InsertStep (sid i) eid i (name step) (agentType step) Running,
            Broadcast (StepUpdate eid (sid i) Running i None None),
            CallRunner i step ctx] @ u @
           [FailExecution ?m eid, Broadcast (ExecutionUpdate eid Failed ?m)]"
    and u: "(\<exists>msg. u = [FailStep msg (sid i)] \<and> ?m = Some msg) \<or>
          (\<exists>r. u = [UpdateStep Failed r ?m (sid i),
                    Broadcast (StepUpdate eid (sid i) Failed i r ?m)])"
    by blast
  let ?tail = "[InsertStep (sid i) eid i (name step) (agentType step) Running,
            Broadcast (StepUpdate eid (sid i) Running i None None),
            CallRunner i step ctx] @ u @
           [FailExecution ?m eid, Broadcast (ExecutionUpdate eid Failed ?m)]"
  have whole: "effs = (?head @ pre) @ ?tail"
    unfolding effs T tail by simp
  have q1: "j \<le> i" if "CallRunner j s c \<in> set pre" for j s c
    using that p1 less_imp_le by blast
  have q2: "j \<le> i" if "InsertStep a b j n g st \<in> set pre" for a b j n g st
    using that p2 less_imp_le by blast
  have inserts: "\<forall>a b j n g st. InsertStep a b j n g st \<in> set effs \<longrightarrow> j \<le> i"
    unfolding whole using u by (auto dest: q2)
  have calls: "\<forall>j s c. CallRunner j s c \<in> set effs \<longrightarrow> j \<le> i"
    unfolding whole using u by (auto dest: q1)
  have ending: "\<exists>pre. effs = pre @
            [FailExecution ?m eid, Broadcast (ExecutionUpdate eid Failed ?m)]"
    unfolding whole by (intro exI[of _ "(?head @ pre) @ [InsertStep (sid i) eid i (name step) (agentType step) Running,
            Broadcast (StepUpdate eid (sid i) Running i None None),
            CallRunner i step ctx] @ u"]) simp
  have never: "\<forall>a. CompleteExecution a \<notin> set effs"
    unfolding whole using p5 u by auto
  let ?dA = "perform_all db (?head @ pre)"
  have "eid \<in> e_id ` set (workflow_executions (perform db (InsertExecution eid wid Running)))"
    by (simp add: perform.simps)
  then have "eid \<in> e_id ` set (workflow_executions
      (perform_all (perform db (InsertExecution eid wid Running))
         (Broadcast (ExecutionUpdate eid Running None) # pre)))"
    by (rule execution_ids_perform_all)
  then have ids: "eid \<in> e_id ` set (workflow_executions ?dA)" by simp
  have final: "perform_all db effs = perform_all ?dA ?tail"
    unfolding whole by (rule perform_all_append)
  have "(\<exists>e\<in>set (workflow_executions (perform_all db effs)). e_id e = eid) \<and>
         (\<forall>e\<in>set (workflow_executions (perform_all db effs)). e_id e = eid \<longrightarrow>
            e_status e = Failed \<and> e_error_message e = ?m) \<and>
         (\<exists>r\<in>set (execution_steps (perform_all db effs)).
            s_id r = sid i \<and> s_execution_id r = eid \<and> s_step_index r = i) \<and>
         (\<forall>r\<in>set (execution_steps (perform_all db effs)). s_id r = sid i \<longrightarrow>
            s_status r = Failed \<and> s_error_message r = ?m)"
    using ids u final
    by (rule failed_tail_store[where eid=eid and sid=sid and i=i and u=u and m="?m"
          and nm="name step" and ag="agentType step" and step=step and ctx=ctx])
  then show ?thesis using inserts calls ending never by blast
qed



theorem failing_step_halts_witness:
  "CallRunner 0 stepA empty_context \<in> set (snd (startExecution runner_timeout ''e1'' step_ids store_AB ''w1'')) \<and>
   failed (runner_timeout 0 stepA empty_context) \<and>
   snd (startExecution runner_timeout ''e1'' step_ids store_AB ''w1'') =
     [InsertExecution ''e1'' ''w1'' Running,
      Broadcast (ExecutionUpdate ''e1'' Running None),
      InsertStep ''s'' ''e1'' 0 ''A'' Data Running,
      Broadcast (StepUpdate ''e1'' ''s'' Running 0 None None),
      CallRunner 0 stepA empty_context,
      UpdateStep Failed None (Some ''timeout'') ''s'',
      Broadcast (StepUpdate ''e1'' ''s'' Failed 0 None (Some ''timeout'')),
      FailExecution (Some ''timeout'') ''e1'',
      Broadcast (ExecutionUpdate ''e1'' Failed (Some ''timeout''))] \<and>
   map (\<lambda>e. (e_id e, e_status e, e_error_message e))
     (workflow_executions (perform_all store_AB
        (snd (startExecution runner_timeout ''e1'' step_ids store_AB ''w1'')))) =
     [(''e1'', Failed, Some ''timeout'')] \<and>
   map (\<lambda>r. (s_id r, s_step_index r, s_status r, s_error_message r))
     (execution_steps (perform_all store_AB
        (snd (startExecution runner_timeout ''e1'' step_ids store_AB ''w1'')))) =
     [(''s'', 0, Failed, Some ''timeout'')] \<and>
   CallRunner 0 stepA empty_context \<in> set (snd (startExecution runner_throws ''e2'' step_ids store_AB ''w1'')) \<and>
   failed (runner_throws 0 stepA empty_context) \<and>
   snd (startExecution runner_throws ''e2'' step_ids store_AB ''w1'') =
     [InsertExecution ''e2'' ''w1'' Running,
      Broadcast (ExecutionUpdate ''e2'' Running None),
      InsertStep ''s'' ''e2'' 0 ''A'' Data Running,
      Broadcast (StepUpdate ''e2'' ''s'' Running 0 None None),
      CallRunner 0 stepA empty_context,
      FailStep ''socket closed'' ''s'',
      FailExecution (Some ''socket closed'') ''e2'',
      Broadcast (ExecutionUpdate ''e2'' Failed (Some ''socket closed''))] \<and>
   map (\<lambda>e. (e_id e, e_status e, e_error_message e))
     (workflow_executions (perform_all store_AB
        (snd (startExecution runner_throws ''e2'' step_ids store_AB ''w1'')))) =
     [(''e2'', Failed, Some ''socket closed'')] \<and>
   map (\<lambda>r. (s_id r, s_step_index r, s_status r, s_error_message r))
     (execution_steps (perform_all store_AB
        (snd (startExecution runner_throws ''e2'' step_ids store_AB ''w1'')))) =
     [(''s'', 0, Failed, Some ''socket closed'')]"
  using failing_step_halts [of runner_timeout "''e1''" step_ids store_AB "''w1''"
          "fst (startExecution runner_timeout ''e1'' step_ids store_AB ''w1'')"
          "snd (startExecution runner_timeout ''e1'' step_ids store_AB ''w1'')"
          0 stepA empty_context]
        failing_step_halts [of runner_throws "''e2''" step_ids store_AB "''w1''"
          "fst (startExecution runner_throws ''e2'' step_ids store_AB ''w1'')"
          "snd (startExecution runner_throws ''e2'' step_ids store_AB ''w1'')"
          0 stepA empty_context]
  by (simp add: scenario_defs)

text \<open>
  C2 holds for every step name but one, and fails on the code for a step named
  \<open>__proto__\<close>. In the plan \<open>[__proto__(data), B(communication)]\<close> the first step
  completes with the result \<open>{rows: 3}\<close>, and \<open>Object.assign\<close> at line 120 then runs the
  setter of \<open>Object.prototype.__proto__\<close>: the result becomes the prototype of the context
  and no entry is added. The runner is called for \<open>B\<close> with a context that has no
  entry at all, where the claim has it hold \<open>{__proto__: {rows: 3}}\<close>.
\<close>

theorem context_misses_proto_step:
  "name stepP = ''__proto__'' \<and>
   runner_success 0 stepP empty_context =
     Inr \<lparr>success = True, result = Some (JObj [(''rows'', JNum 3)]), error = None\<rparr> \<and>
   background runner_success ''e1'' step_ids plan_PB =
     [Broadcast (ExecutionUpdate ''e1'' Running None),
      InsertStep ''s'' ''e1'' 0 ''__proto__'' Data Running,
      Broadcast (StepUpdate ''e1'' ''s'' Running 0 None None),
      CallRunner 0 stepP empty_context,
      UpdateStep Completed (Some (JObj [(''rows'', JNum 3)])) None ''s'',
      Broadcast (StepUpdate ''e1'' ''s'' Completed 0 (Some (JObj [(''rows'', JNum 3)])) None),
      InsertStep ''s+'' ''e1'' 1 ''B'' Communication Running,
      Broadcast (StepUpdate ''e1'' ''s+'' Running 1 None None),
      CallRunner 1 stepB
        \<lparr>entries = Map.empty, prototype = ValuePrototype (JObj [(''rows'', JNum 3)])\<rparr>,
      UpdateStep Completed (Some (JObj [(''sent'', JBool True)])) None ''s+'',
      Broadcast (StepUpdate ''e1'' ''s+'' Completed 1 (Some (JObj [(''sent'', JBool True)])) None),
      CompleteExecution ''e1'',
      Broadcast (ExecutionUpdate ''e1'' Completed None)] \<and>
   entries (Object_assign empty_context ''__proto__'' (Some (JObj [(''rows'', JNum 3)])))
     ''__proto__'' = None \<and>
   entries (Object_assign empty_context ''A'' (Some (JObj [(''rows'', JNum 3)]))) ''A'' =
     Some (Some (JObj [(''rows'', JNum 3)]))"
  by (simp add: scenario_defs)

text \<open>
  C3. Let every call of the runner in the run succeed, for a stored workflow and an
  execution id new to both tables. Then the run is some effects followed by the update
  of the execution to Completed and its broadcast; those earlier effects hold the
  Completed update of every step, in the order of the steps, and no update of the
  execution, and in every store they pass through the execution row is still
  Running. In the store after the run the execution row is Completed with
  \<open>completed_at\<close> set, and the step rows of the execution are those of all the steps of
  the plan, each Completed.
\<close>

theorem completion_after_last_step:
  assumes "startExecution run eid sid db wid = (resp, effs)"
      and "getWorkflow db wid = Some w"
      and "\<forall>j s c. CallRunner j s c \<in> set effs \<longrightarrow> \<not> failed (run j s c)"
      and "eid \<notin> e_id ` set (workflow_executions db)"
      and "\<forall>r\<in>set (execution_steps db). s_execution_id r \<noteq> eid"
  shows "(\<exists>pre. effs = pre @ [CompleteExecution eid, Broadcast (ExecutionUpdate eid Completed None)] \<and>
            List.map_filter step_update pre =
              map (\<lambda>j. (sid j, Completed)) [0..<length (w_steps_json w)] \<and>
            (\<forall>x\<in>set pre. \<not> execution_update x) \<and>
            (\<forall>d\<in>set (stores db pre). \<forall>e\<in>set (workflow_executions d).
                e_id e = eid \<longrightarrow> e_status e = Running)) \<and>
         (\<exists>e\<in>set (workflow_executions (perform_all db effs)). e_id e = eid) \<and>
         (\<forall>e\<in>set (workflow_executions (perform_all db effs)). e_id e = eid \<longrightarrow>
            e_status e = Completed \<and> e_completed_at e \<noteq> None) \<and>
         map s_step_index (execution_steps_of eid (perform_all db effs)) =
           [0..<length (w_steps_json w)] \<and>
         (\<forall>r\<in>set (execution_steps_of eid (perform_all db effs)). s_status r = Completed)"
proof -
  let ?plan = "w_steps_json w"
  let ?T = "run_steps run eid sid 0 empty_context ?plan"
  let ?head = "[InsertExecution eid wid Running, Broadcast (ExecutionUpdate eid Running None)]"
  let ?last = "[CompleteExecution eid, Broadcast (ExecutionUpdate eid Completed None)]"
  from assms(1,2) have effs: "effs = ?head @ ?T"
    by (auto simp: startExecution_def background_def)
  with assms(3) have ok: "\<forall>j s c. CallRunner j s c \<in> set ?T \<longrightarrow> \<not> failed (run j s c)"
    by simp
  from run_steps_all_succeed[OF ok] obtain pre where
    T: "?T = pre @ ?last"
    and upd: "List.map_filter step_update pre = map (\<lambda>j. (sid j, Completed)) [0..<0 + length ?plan]"
    and noex: "\<forall>x\<in>set pre. \<not> execution_update x"
    and noins: "\<forall>a b st. InsertExecution a b st \<notin> set pre"
    by blast
  have whole: "effs = (?head @ pre) @ ?last"
    unfolding effs T by simp
  have upd': "List.map_filter step_update (?head @ pre) =
      map (\<lambda>j. (sid j, Completed)) [0..<length ?plan]"
    using upd by (simp add: List.map_filter_def)
  have noex': "\<forall>x\<in>set (?head @ pre). \<not> execution_update x"
    using noex by simp
  have fresh: "\<forall>e\<in>set (workflow_executions db). e_id e = eid \<longrightarrow> e_status e = Running"
    using assms(4) by auto
  have before: "\<forall>d\<in>set (stores db (?head @ pre)). \<forall>e\<in>set (workflow_executions d).
      e_id e = eid \<longrightarrow> e_status e = Running"
  proof
    fix d assume mem: "d \<in> set (stores db (?head @ pre))"
    have "st = Running" if "InsertExecution a b st \<in> set (?head @ pre)" for a b st
      using that noins by auto
    with fresh noex' show "\<forall>e\<in>set (workflow_executions d). e_id e = eid \<longrightarrow> e_status e = Running"
      using mem by (rule stores_running)
  qed
  have trace: "\<exists>pre. effs = pre @ ?last \<and>
            List.map_filter step_update pre = map (\<lambda>j. (sid j, Completed)) [0..<length ?plan] \<and>
            (\<forall>x\<in>set pre. \<not> execution_update x) \<and>
            (\<forall>d\<in>set (stores db pre). \<forall>e\<in>set (workflow_executions d).
                e_id e = eid \<longrightarrow> e_status e = Running)"
    using whole upd' noex' before by blast
  let ?dA = "perform_all db (?head @ pre)"
  have final: "perform_all db effs = perform ?dA (CompleteExecution eid)"
    unfolding whole perform_all_append by simp
  have "eid \<in> e_id ` set (workflow_executions (perform db (InsertExecution eid wid Running)))"
    by (simp add: perform.simps)
  then have "eid \<in> e_id ` set (workflow_executions
      (perform_all (perform db (InsertExecution eid wid Running))
         (Broadcast (ExecutionUpdate eid Running None) # pre)))"
    by (rule execution_ids_perform_all)
  then have "eid \<in> e_id ` set (workflow_executions ?dA)" by simp
  then have "eid \<in> e_id ` set (workflow_executions (perform_all db effs))"
    unfolding final by (rule execution_ids_perform)
  then have a: "\<exists>e\<in>set (workflow_executions (perform_all db effs)). e_id e = eid" by auto
  have b: "\<forall>e\<in>set (workflow_executions (perform_all db effs)). e_id e = eid \<longrightarrow>
            e_status e = Completed \<and> e_completed_at e \<noteq> None"
    unfolding final using completed_execution_rows[of _ ?dA eid] by auto
  let ?d0 = "perform_all db ?head"
  from assms(5) have "execution_steps_of eid ?d0 = []"
    by (auto simp: execution_steps_of_def filter_empty_conv)
  then have "map s_step_index (execution_steps_of eid ?d0) = [0..<0]"
       "\<forall>r\<in>set (execution_steps_of eid ?d0). s_status r = Completed"
    by simp_all
  from completed_loop[OF this ok]
  have c: "map s_step_index (execution_steps_of eid (perform_all db effs)) = [0..<length ?plan] \<and>
         (\<forall>r\<in>set (execution_steps_of eid (perform_all db effs)). s_status r = Completed)"
    unfolding effs perform_all_append by simp
  from trace a b c show ?thesis by blast
qed

theorem completion_after_last_step_witness:
  "getWorkflow store_AB ''w1'' = Some (hd (workflows store_AB)) \<and>
   \<not> failed (runner_success 0 stepA empty_context) \<and>
   \<not> failed (runner_success 1 stepB \<lparr>entries = [''A'' \<mapsto> Some (JObj [(''rows'', JNum 3)])], prototype = ObjectPrototype\<rparr>) \<and>
   workflow_executions store_AB = [] \<and> execution_steps store_AB = [] \<and>
   snd (startExecution runner_success ''e1'' step_ids store_AB ''w1'') =
     [InsertExecution ''e1'' ''w1'' Running,
      Broadcast (ExecutionUpdate ''e1'' Running None),
      InsertStep ''s'' ''e1'' 0 ''A'' Data Running,
      Broadcast (StepUpdate ''e1'' ''s'' Running 0 None None),
      CallRunner 0 stepA empty_context,
      UpdateStep Completed (Some (JObj [(''rows'', JNum 3)])) None ''s'',
      Broadcast (StepUpdate ''e1'' ''s'' Completed 0 (Some (JObj [(''rows'', JNum 3)])) None),
      InsertStep ''s+'' ''e1'' 1 ''B'' Communication Running,
      Broadcast (StepUpdate ''e1'' ''s+'' Running 1 None None),
      CallRunner 1 stepB \<lparr>entries = [''A'' \<mapsto> Some (JObj [(''rows'', JNum 3)])], prototype = ObjectPrototype\<rparr>,
      UpdateStep Completed (Some (JObj [(''sent'', JBool True)])) None ''s+'',
      Broadcast (StepUpdate ''e1'' ''s+'' Completed 1 (Some (JObj [(''sent'', JBool True)])) None),
      CompleteExecution ''e1'',
      Broadcast (ExecutionUpdate ''e1'' Completed None)] \<and>
   map (\<lambda>e. (e_id e, e_status e, e_completed_at e))
     (workflow_executions (perform_all store_AB
        (snd (startExecution runner_success ''e1'' step_ids store_AB ''w1'')))) =
     [(''e1'', Completed, Some 2)] \<and>
   map (\<lambda>r. (s_step_index r, s_status r))
     (execution_steps (perform_all store_AB
        (snd (startExecution runner_success ''e1'' step_ids store_AB ''w1'')))) =
     [(0, Completed), (1, Completed)]"
  using completion_after_last_step [of runner_success "''e1''" step_ids store_AB "''w1''"
          "fst (startExecution runner_success ''e1'' step_ids store_AB ''w1'')"
          "snd (startExecution runner_success ''e1'' step_ids store_AB ''w1'')"
          "hd (workflows store_AB)"]
  by (simp add: scenario_defs)

section \<open>What the step runner returns, and when it throws\<close>

text \<open>
  C6 fails on the code when the call of the executor rejects with \<open>undefined\<close> or \<open>null\<close>:
  the \<open>catch\<close> reads \<open>error.message\<close> from the caught value (line 98), which raises a
  TypeError inside the catch block, and \<open>executeAgentStep\<close> throws it instead of
  returning \<open>{success: false, error: message}\<close>. In the run of workflow \<open>w1\<close> over such an
  executor the fault reaches the \<open>catch\<close> of the loop (line 121), which records the
  TypeError's message on the step and on the execution.
\<close>

theorem executeAgentStep_throws_on_nullish_rejection:
  "executeAgentStep (executor_replying (Rejects (ThrownNullish Undefined))) stepA empty_context =
     Inl (type_error_message Undefined) \<and>
   executeAgentStep (executor_replying (Rejects (ThrownNullish Null))) stepA empty_context =
     Inl (type_error_message Null) \<and>
   snd (startExecution (agent_runner rejecting_undefined) ''e1'' step_ids store_AB ''w1'') =
     [InsertExecution ''e1'' ''w1'' Running,
      Broadcast (ExecutionUpdate ''e1'' Running None),
      InsertStep ''s'' ''e1'' 0 ''A'' Data Running,
      Broadcast (StepUpdate ''e1'' ''s'' Running 0 None None),
      CallRunner 0 stepA empty_context,
      FailStep (type_error_message Undefined) ''s'',
      FailExecution (Some (type_error_message Undefined)) ''e1'',
      Broadcast (ExecutionUpdate ''e1'' Failed (Some (type_error_message Undefined)))]"
  by (simp add: scenario_defs agent_runner_def rejecting_undefined_def executor_replying_def
        executeAgentStep_def executeAgentStep_try_def)

text \<open>
  C7, as the code has it. When the executor's reply does not parse (the call is rejected
  with an Error, the response is empty, or the text is unparsable), the value returned
  has \<open>success\<close> false, a non-empty \<open>error\<close> message and no \<open>result\<close>: the message of the
  Error or of the SyntaxError, \<open>Unknown error during agent execution\<close> when that is empty,
  and \<open>Empty response from agent\<close> for an empty response. A reply that parses is returned
  as it is, whatever its fields hold. A call rejected with \<open>null\<close> or \<open>undefined\<close> returns
  no value.
\<close>

theorem executeAgentStep_built_failures:
  "((\<forall>v. ai step ctx \<noteq> Parses v) \<and> (\<forall>n. ai step ctx \<noteq> Rejects (ThrownNullish n)) \<longrightarrow>
      (\<exists>m. m \<noteq> [] \<and>
         executeAgentStep ai step ctx = Inr \<lparr>success = False, result = None, error = Some m\<rparr>)) \<and>
   (\<forall>v. ai step ctx = Parses v \<longrightarrow> executeAgentStep ai step ctx = Inr v) \<and>
   (\<forall>n. ai step ctx = Rejects (ThrownNullish n) \<longrightarrow>
      (\<forall>r. executeAgentStep ai step ctx \<noteq> Inr r)) \<and>
   (\<forall>m. ai step ctx = Rejects (ThrownError m) \<or> ai step ctx = Unparsable m \<longrightarrow>
      executeAgentStep ai step ctx =
        Inr \<lparr>success = False, result = None,
             error = Some (if m = [] then ''Unknown error during agent execution'' else m)\<rparr>) \<and>
   (ai step ctx = NoText \<longrightarrow>
      executeAgentStep ai step ctx =
        Inr \<lparr>success = False, result = None, error = Some ''Empty response from agent''\<rparr>)"
proof (cases "ai step ctx")
  case (Rejects t)
  then show ?thesis
    by (cases t) (auto simp: executeAgentStep_def executeAgentStep_try_def)
qed (auto simp: executeAgentStep_def executeAgentStep_try_def)

theorem executeAgentStep_built_failures_witness:
  "executor_replying NoText stepA empty_context = NoText \<and>
   executeAgentStep (executor_replying NoText) stepA empty_context =
     Inr \<lparr>success = False, result = None, error = Some ''Empty response from agent''\<rparr> \<and>
   executor_replying (Rejects (ThrownError ''quota exceeded'')) stepA empty_context =
     Rejects (ThrownError ''quota exceeded'') \<and>
   executeAgentStep (executor_replying (Rejects (ThrownError ''quota exceeded''))) stepA empty_context =
     Inr \<lparr>success = False, result = None, error = Some ''quota exceeded''\<rparr> \<and>
   executor_replying (Unparsable []) stepA empty_context = Unparsable [] \<and>
   executeAgentStep (executor_replying (Unparsable [])) stepA empty_context =
     Inr \<lparr>success = False, result = None,
          error = Some ''Unknown error during agent execution''\<rparr>"
  using executeAgentStep_built_failures [of "executor_replying NoText" stepA empty_context]
    executeAgentStep_built_failures
      [of "executor_replying (Rejects (ThrownError ''quota exceeded''))" stepA empty_context]
    executeAgentStep_built_failures [of "executor_replying (Unparsable [])" stepA empty_context]
  by (simp add: executor_replying_def)

text \<open>
  C7, as stated, fails: a reply \<open>{"success": false}\<close> is returned with no \<open>error\<close>, and a
  reply that carries both \<open>result\<close> and \<open>error\<close> is returned with both.
\<close>

theorem executeAgentStep_passes_reply_through:
  "executeAgentStep
     (executor_replying (Parses \<lparr>success = False, result = None, error = None\<rparr>))
     stepA empty_context
     = Inr \<lparr>success = False, result = None, error = None\<rparr> \<and>
   executeAgentStep
     (executor_replying (Parses \<lparr>success = True, result = Some (JObj [(''rows'', JNum 3)]),
                                 error = Some ''two rows skipped''\<rparr>))
     stepA empty_context
     = Inr \<lparr>success = True, result = Some (JObj [(''rows'', JNum 3)]),
            error = Some ''two rows skipped''\<rparr>"
  by (simp add: executeAgentStep_def executeAgentStep_try_def executor_replying_def)

section \<open>Starting an execution of an unknown workflow\<close>

text \<open>
  C4. When \<open>workflowId\<close> is the id of no stored workflow, the handler answers 404 with the
  message \<open>Workflow not found\<close>, performs no effect at all, and the store (so also the
  table of executions) is as before.
\<close>

theorem startExecution_unknown_workflow:
  assumes "wid \<notin> w_id ` set (workflows db)"
  shows "startExecution run eid sid db wid =
           (Response 404 (ErrorBody ''Workflow not found''), []) \<and>
         perform_all db (snd (startExecution run eid sid db wid)) = db \<and>
         workflow_executions (perform_all db (snd (startExecution run eid sid db wid))) =
           workflow_executions db"
proof -
  from assms have "getWorkflow db wid = None"
    by (auto simp: getWorkflow_def find_None_iff)
  then show ?thesis by (simp add: startExecution_def)
qed

theorem startExecution_unknown_workflow_witness:
  "''w9'' \<notin> w_id ` set (workflows store_AB) \<and>
   startExecution runner_success ''e1'' step_ids store_AB ''w9'' =
     (Response 404 (ErrorBody ''Workflow not found''), []) \<and>
   workflow_executions
     (perform_all store_AB (snd (startExecution runner_success ''e1'' step_ids store_AB ''w9''))) = []"
  using startExecution_unknown_workflow [of "''w9''" store_AB runner_success "''e1''" step_ids]
  by (simp add: store_AB_def)

section \<open>Steps run one after the other\<close>

text \<open>
  C5. Take any store that the run of an execution passes through, from the request to
  the last effect of its background task, the execution id being new to the step table.
  The step rows of the execution, in the order of their creation, carry the indices
  \<open>0, 1, 2, ...\<close> without a gap; every row but the newest is in a terminal state, so the
  row of step \<open>i + 1\<close> exists only once step \<open>i\<close> is completed or failed; and at most one
  row is running.
\<close>

theorem steps_run_in_sequence:
  assumes "startExecution run eid sid db wid = (resp, effs)"
      and "\<forall>r\<in>set (execution_steps db). s_execution_id r \<noteq> eid"
      and "d \<in> set (stores db effs)"
  shows "map s_step_index (execution_steps_of eid d) = [0..<length (execution_steps_of eid d)] \<and>
         (\<forall>r\<in>set (butlast (execution_steps_of eid d)). terminal (s_status r)) \<and>
         length (filter (\<lambda>r. s_status r = Running) (execution_steps_of eid d)) \<le> 1"
proof -
  from assms(2) have none: "execution_steps_of eid db = []"
    by (auto simp: execution_steps_of_def filter_empty_conv)
  have "map s_step_index (execution_steps_of eid d) = [0..<length (execution_steps_of eid d)] \<and>
         (\<forall>r\<in>set (butlast (execution_steps_of eid d)). terminal (s_status r))"
  proof (cases "getWorkflow db wid")
    case None
    with assms(1,3) have "d = db" by (auto simp: startExecution_def)
    with none show ?thesis by simp
  next
    case (Some w)
    let ?d1 = "perform db (InsertExecution eid wid Running)"
    from Some assms(1) have "effs = InsertExecution eid wid Running #
        Broadcast (ExecutionUpdate eid Running None) #
        run_steps run eid sid 0 empty_context (w_steps_json w)"
      by (auto simp: startExecution_def background_def)
    with assms(3) consider "d = db" | "d = ?d1"
      | "d \<in> set (stores ?d1 (run_steps run eid sid 0 empty_context (w_steps_json w)))"
      by auto
    then show ?thesis
    proof cases
      case 1
      with none show ?thesis by simp
    next
      case 2
      with none show ?thesis by simp
    next
      case 3
      have "map s_step_index (execution_steps_of eid ?d1) = [0..<0]"
           "\<forall>r\<in>set (execution_steps_of eid ?d1). terminal (s_status r)"
        using none by simp_all
      from sequential_loop[OF this 3] show ?thesis .
    qed
  qed
  then show ?thesis using at_most_one_running by blast
qed

theorem steps_run_in_sequence_witness:
  "execution_steps store_AB = [] \<and>
   perform_all store_AB (take 8 (snd (startExecution runner_success ''e1'' step_ids store_AB ''w1'')))
     \<in> set (stores store_AB (snd (startExecution runner_success ''e1'' step_ids store_AB ''w1''))) \<and>
   map (\<lambda>r. (s_step_index r, s_status r))
     (execution_steps_of ''e1'' (perform_all store_AB
        (take 8 (snd (startExecution runner_success ''e1'' step_ids store_AB ''w1''))))) =
     [(0, Completed), (1, Running)] \<and>
   length (filter (\<lambda>r. s_status r = Running)
     (execution_steps_of ''e1'' (perform_all store_AB
        (take 8 (snd (startExecution runner_success ''e1'' step_ids store_AB ''w1'')))))) \<le> 1"
  using steps_run_in_sequence [of runner_success "''e1''" step_ids store_AB "''w1''"
          "fst (startExecution runner_success ''e1'' step_ids store_AB ''w1'')"
          "snd (startExecution runner_success ''e1'' step_ids store_AB ''w1'')"
          "perform_all store_AB (take 8 (snd (startExecution runner_success ''e1'' step_ids store_AB ''w1'')))"]
    stores_take [of store_AB 8 "snd (startExecution runner_success ''e1'' step_ids store_AB ''w1'')"]
  by (simp add: scenario_defs)

section \<open>Analytics\<close>

text \<open>
  C8. For every store, the overview holds the number of workflow rows and the number of
  execution rows. Its histogram lists each status that some execution has, once, with
  the number of executions of that status, and these numbers add up to the number of
  executions. When there is an execution, the success rate is the number of executions
  whose status is completed, divided by the number of executions, times 100, rounded to
  the nearest integer: it is within one half of the exact quotient, a half being
  rounded upwards, which makes it \<open>(200 * completed + total) div (2 * total)\<close>.
\<close>

theorem analytics_overview:
  "totalWorkflows (analytics db) = length (workflows db) \<and>
   totalExecutions (analytics db) = length (workflow_executions db) \<and>
   (workflow_executions db \<noteq> [] \<longrightarrow>
      \<bar>of_int (successRate (analytics db))
          - of_nat (length (filter (\<lambda>e. e_status e = Completed) (workflow_executions db)))
              / of_nat (length (workflow_executions db)) * (100 :: rat)\<bar> \<le> 1 / 2 \<and>
      successRate (analytics db) =
        (200 * int (length (filter (\<lambda>e. e_status e = Completed) (workflow_executions db)))
           + int (length (workflow_executions db)))
        div (2 * int (length (workflow_executions db)))) \<and>
   (\<forall>st. map_of (statusBreakdown (analytics db)) st =
      (if filter (\<lambda>e. e_status e = st) (workflow_executions db) = [] then None
       else Some (length (filter (\<lambda>e. e_status e = st) (workflow_executions db))))) \<and>
   distinct (map fst (statusBreakdown (analytics db))) \<and>
   sum_list (map snd (statusBreakdown (analytics db))) = length (workflow_executions db)"
proof -
  let ?rows = "workflow_executions db"
  let ?c = "length (filter (\<lambda>e. e_status e = Completed) ?rows)"
  let ?q = "of_nat ?c / of_nat (length ?rows) * 100 :: rat"
  have c: "count_status Completed ?rows = ?c" by (simp add: count_status_def)
  have q: "?q = of_nat ?c * 100 / of_nat (length ?rows)" by simp
  have rate: "successRate (analytics db) = Math_round ?q" if "?rows \<noteq> []"
  proof (cases "?q = 0")
    case True
    with that show ?thesis
      by (simp add: analytics_def sql_divide_def Let_def Math_round_0 c)
  next
    case False
    with that show ?thesis
      by (simp add: analytics_def sql_divide_def Let_def c)
  qed
  have near: "\<bar>of_int (successRate (analytics db)) - ?q\<bar> \<le> 1 / 2" if "?rows \<noteq> []"
    unfolding rate[OF that] by (rule Math_round_nearest)
  have whole: "successRate (analytics db) =
      (200 * int ?c + int (length ?rows)) div (2 * int (length ?rows))" if "?rows \<noteq> []"
  proof -
    from that have "0 < length ?rows" by simp
    from Math_round_ratio[OF this, of ?c] show ?thesis
      unfolding rate[OF that] q .
  qed
  have hist: "statusBreakdown (analytics db) = group_by_status ?rows"
    by (simp add: analytics_def Let_def)
  have "totalWorkflows (analytics db) = length (workflows db)"
    by (simp add: analytics_def Let_def)
  moreover have "totalExecutions (analytics db) = length ?rows"
    by (simp add: analytics_def Let_def)
  moreover have "\<forall>st. map_of (statusBreakdown (analytics db)) st =
      (if filter (\<lambda>e. e_status e = st) ?rows = [] then None
       else Some (length (filter (\<lambda>e. e_status e = st) ?rows)))"
    unfolding hist by (simp add: group_by_status_lookup count_status_def)
  moreover have "distinct (map fst (statusBreakdown (analytics db)))"
    unfolding hist by (rule group_by_status_distinct)
  moreover have "sum_list (map snd (statusBreakdown (analytics db))) = length ?rows"
    unfolding hist by (rule group_by_status_sum)
  ultimately show ?thesis
    using near whole by blast
qed

theorem analytics_overview_witness:
  "map e_status (workflow_executions store_three) = [Completed, Failed, Completed] \<and>
   totalWorkflows (analytics store_three) = 1 \<and>
   totalExecutions (analytics store_three) = 3 \<and>
   successRate (analytics store_three) = 67 \<and>
   statusBreakdown (analytics store_three) = [(Completed, 2), (Failed, 1)] \<and>
   map e_status (workflow_executions store_running) = [Completed, Failed, Running] \<and>
   totalExecutions (analytics store_running) = 3 \<and>
   successRate (analytics store_running) = 33 \<and>
   statusBreakdown (analytics store_running) = [(Completed, 1), (Failed, 1), (Running, 1)]"
  using analytics_overview [of store_three] analytics_overview [of store_running]
  by (simp add: store_running_def store_three_def store_AB_def count_status_def analytics_def
        group_by_status_def Let_def)

text \<open>
  C9. With no execution in the store, the division of the rate is a division by zero,
  which gives NULL (\<open>None\<close>) and no fault; the overview then reports a success rate of 0.
\<close>

theorem analytics_no_executions:
  assumes "workflow_executions db = []"
  shows "sql_divide (of_nat (count_status Completed (workflow_executions db)) * 100)
           (of_nat (length (workflow_executions db))) = None \<and>
         successRate (analytics db) = 0 \<and>
         analytics db = \<lparr>totalWorkflows = length (workflows db), totalExecutions = 0,
                         successRate = 0, statusBreakdown = []\<rparr>"
  using assms
  by (simp add: analytics_def sql_divide_def Math_round_0 count_status_def group_by_status_def)

theorem analytics_no_executions_witness:
  "workflow_executions store_AB = [] \<and> successRate (analytics store_AB) = 0 \<and>
   totalWorkflows (analytics store_AB) = 1"
  using analytics_no_executions [of store_AB]
  by (simp add: store_AB_def)

section \<open>Reading an unknown execution\<close>

text \<open>
  C10. In a store that keeps the foreign key of the step table (which every run of
  \<open>startExecution\<close> preserves: \<open>references_ok_startExecution\<close>), an id that is the id of
  no execution is answered with status 200 and a body that has no execution column
  and the empty list of steps; no 404 is sent.
\<close>

theorem getExecution_unknown_id:
  assumes "references_ok db"
      and "ident \<notin> e_id ` set (workflow_executions db)"
  shows "getExecution db ident = Response 200 \<lparr>detail_execution = None, detail_steps = []\<rparr>"
proof -
  from assms(2) have "find (\<lambda>e. e_id e = ident) (workflow_executions db) = None"
    by (auto simp: find_None_iff)
  moreover from assms have "filter (\<lambda>r. s_execution_id r = ident) (execution_steps db) = []"
    by (auto simp: references_ok_def filter_empty_conv)
  ultimately show ?thesis by (simp add: getExecution_def)
qed

theorem getExecution_unknown_id_witness:
  "references_ok store_three \<and>
   ''e7'' \<notin> e_id ` set (workflow_executions store_three) \<and>
   getExecution store_three ''e7'' = Response 200 \<lparr>detail_execution = None, detail_steps = []\<rparr>"
  using getExecution_unknown_id [of store_three "''e7''"]
  by (simp add: store_three_def store_AB_def references_ok_def)

end
